theory Spec2Isabelle
  imports Complex_Main "HOL-Library.Multiset"
begin

section \<open>Data model\<close>

text \<open>
  The decoding core of \<^verbatim>\<open>src/main.py\<close>: \<^verbatim>\<open>top_k_top_p_filtering\<close> and \<^verbatim>\<open>generate\<close>.

  A logit is a float. The model reads floats as real numbers extended with the one
  infinite value the code itself writes, \<^verbatim>\<open>-float('Inf')\<close>; rounding, NaN and
  \<^verbatim>\<open>+inf\<close> are outside the model. Comparison is the usual one, with \<open>NegInf\<close> below
  every finite value.
\<close>

datatype logit = NegInf | Fin real

instantiation logit :: linorder
begin

fun less_eq_logit :: "logit \<Rightarrow> logit \<Rightarrow> bool" where
  "less_eq_logit NegInf _ = True"
| "less_eq_logit (Fin a) NegInf = False"
| "less_eq_logit (Fin a) (Fin b) = (a \<le> b)"

definition less_logit :: "logit \<Rightarrow> logit \<Rightarrow> bool" where
  "less_logit x y = (x \<le> y \<and> \<not> y \<le> x)"

instance
proof
  fix x y z :: logit
  show "(x < y) = (x \<le> y \<and> \<not> y \<le> x)"
    by (simp add: less_logit_def)
  show "x \<le> x"
    by (cases x) simp_all
  show "x \<le> y \<Longrightarrow> y \<le> z \<Longrightarrow> x \<le> z"
    by (cases x; cases y; cases z) simp_all
  show "x \<le> y \<Longrightarrow> y \<le> x \<Longrightarrow> x = y"
    by (cases x; cases y) simp_all
  show "x \<le> y \<or> y \<le> x"
    by (cases x; cases y) auto
qed

end

text \<open>
  Exceptions of the Python code are values. \<open>IndexError\<close> is an index outside a tensor,
  \<open>RuntimeError\<close> is \<^verbatim>\<open>torch.multinomial\<close> refusing a probability vector of NaN,
  \<open>ModelError\<close> is any failure of the external language model. \<open>NonFinite\<close> is not a
  Python exception: it marks a division by a zero temperature or penalty, whose IEEE
  result (an infinity or NaN) has no value in \<^typ>\<open>logit\<close>; the run is not followed further.
\<close>

datatype error = IndexError | RuntimeError | ModelError | NonFinite

section \<open>top_k_top_p_filtering\<close>

text \<open>\<^verbatim>\<open>torch.topk(logits, k)[0]\<close>: the \<open>k\<close> largest values, largest first.\<close>

definition topk :: "logit list \<Rightarrow> nat \<Rightarrow> logit list" where
  "topk logits k = take k (rev (sort logits))"

text \<open>\<^verbatim>\<open>logits[mask] = filter_value\<close> for a boolean mask.\<close>

definition masked_fill :: "logit list \<Rightarrow> bool list \<Rightarrow> logit \<Rightarrow> logit list" where
  "masked_fill logits flags v = map2 (\<lambda>x m. if m then v else x) logits flags"

text \<open>\<^verbatim>\<open>logits[indices] = filter_value\<close> for a tensor of indices, written one by one.\<close>

definition index_fill :: "logit list \<Rightarrow> nat list \<Rightarrow> logit \<Rightarrow> logit list" where
  "index_fill logits idxs v = foldl (\<lambda>acc i. acc[i := v]) logits idxs"

text \<open>
  \<^verbatim>\<open>torch.sort(logits, descending=True)\<close> returns the values and their original
  indices, as a list of (value, index) pairs here. The call of line 28 does not ask for a
  stable sort, so PyTorch leaves the order of equal values open, and it may differ from
  one input to the next. The sort is therefore a parameter \<open>torch_sort\<close> of the filter;
  \<open>sort_ok\<close> below states what every result of \<^verbatim>\<open>torch.sort\<close> satisfies.
\<close>

type_synonym sorter = "logit list \<Rightarrow> (logit \<times> nat) list"

text \<open>
  \<^verbatim>\<open>F.softmax\<close>. \<open>exp(-inf)\<close> is 0. On a non-empty vector whose entries are all
  \<open>-inf\<close> PyTorch computes \<open>-inf - (-inf)\<close> and every output is NaN: that result is
  \<open>None\<close>.
\<close>

fun expl :: "logit \<Rightarrow> real" where
  "expl NegInf = 0"
| "expl (Fin x) = exp x"

definition softmax :: "logit list \<Rightarrow> real list option" where
  "softmax logits =
     (if logits \<noteq> [] \<and> list_all (\<lambda>x. x = NegInf) logits then None
      else Some (map (\<lambda>x. expl x / sum_list (map expl logits)) logits))"

text \<open>\<^verbatim>\<open>torch.cumsum\<close>: running sums, left to right.\<close>

fun cumsum_from :: "real \<Rightarrow> real list \<Rightarrow> real list" where
  "cumsum_from acc [] = []"
| "cumsum_from acc (x # xs) = (acc + x) # cumsum_from (acc + x) xs"

definition cumsum :: "real list \<Rightarrow> real list" where
  "cumsum xs = cumsum_from 0 xs"

text \<open>
  Lines 32 to 35: \<^verbatim>\<open>cumulative_probs > top_p\<close> (false at every position when the
  probabilities are NaN), then the mask moved one place to the right with position 0
  cleared. Writing position 0 of an empty mask raises \<^verbatim>\<open>IndexError\<close>.
\<close>

definition above_threshold :: "logit list \<Rightarrow> real \<Rightarrow> bool list" where
  "above_threshold sorted_logits top_p =
     (case softmax sorted_logits of
        None \<Rightarrow> replicate (length sorted_logits) False
      | Some probs \<Rightarrow> map (\<lambda>c. top_p < c) (cumsum probs))"

definition shift_right :: "bool list \<Rightarrow> error + bool list" where
  "shift_right flags = (if flags = [] then Inl IndexError else Inr (False # butlast flags))"

text \<open>The two stages of the filter, lines 21 to 25 and lines 27 to 38.\<close>

definition top_k_stage :: "logit list \<Rightarrow> int \<Rightarrow> logit \<Rightarrow> logit list" where
  "top_k_stage logits top_k filter_value =
     (let top_k = min top_k (int (length logits)) in
      if top_k > 0 then
        let indices_to_remove = map (\<lambda>x. x < last (topk logits (nat top_k))) logits
        in masked_fill logits indices_to_remove filter_value
      else logits)"

definition top_p_remove :: "sorter \<Rightarrow> logit list \<Rightarrow> real \<Rightarrow> error + nat list" where
  "top_p_remove torch_sort logits top_p =
     (let sorted = torch_sort logits;
          sorted_logits = map fst sorted;
          sorted_indices = map snd sorted
      in case shift_right (above_threshold sorted_logits top_p) of
           Inl e \<Rightarrow> Inl e
         | Inr sorted_indices_to_remove \<Rightarrow>
             Inr (map snd (filter fst (zip sorted_indices_to_remove sorted_indices))))"

definition top_p_stage :: "sorter \<Rightarrow> logit list \<Rightarrow> real \<Rightarrow> logit \<Rightarrow> error + logit list" where
  "top_p_stage torch_sort logits top_p filter_value =
     (if top_p > 0 then
        case top_p_remove torch_sort logits top_p of
          Inl e \<Rightarrow> Inl e
        | Inr indices_to_remove \<Rightarrow> Inr (index_fill logits indices_to_remove filter_value)
      else Inr logits)"

definition top_k_top_p_filtering ::
  "sorter \<Rightarrow> logit list \<Rightarrow> int \<Rightarrow> real \<Rightarrow> logit \<Rightarrow> error + logit list" where
  "top_k_top_p_filtering torch_sort logits top_k top_p filter_value =
     top_p_stage torch_sort (top_k_stage logits top_k filter_value) top_p filter_value"

section \<open>generate\<close>

text \<open>
  Token ids are indices into the vocabulary, so they are natural numbers. The language
  model and \<^verbatim>\<open>torch.multinomial\<close> are not code of this repository: both are parameters,
  as \<^verbatim>\<open>torch.sort\<close> is.
  \<open>lm\<close> maps the windowed context to \<^verbatim>\<open>outputs[0][0, -1, :]\<close>, the finite scores of the
  next token, or fails. A sampler maps the state of the random generator and a
  probability vector to the drawn index and the next state.
\<close>

type_synonym token = nat
type_synonym lm = "token list \<Rightarrow> error + real list"
type_synonym 'g sampler = "'g \<Rightarrow> real list \<Rightarrow> nat \<times> 'g"

text \<open>
  Line 49, \<^verbatim>\<open>generated[0][-(n_ctx - 1):]\<close>, with Python's slice rule: a negative start
  counts from the end and stops at 0, a start that is not negative counts from the front.
\<close>

definition window :: "int \<Rightarrow> token list \<Rightarrow> token list" where
  "window n_ctx generated =
     (let start = - (n_ctx - 1);
          n = int (length generated);
          start = (if start < 0 then max (start + n) 0 else min start n)
      in drop (nat start) generated)"

text \<open>
  Lines 52 and 53. \<^verbatim>\<open>generated\<close> is a tensor of shape (1, n); iterating it yields its
  one row, so the loop body runs once with \<open>id\<close> the whole row of token ids:
  \<^verbatim>\<open>next_token_logits[id] /= repitition_penalty\<close> reads the logits at these
  indices, divides the values read, and writes them back at the same indices.
\<close>

definition penalise :: "real list \<Rightarrow> token list \<Rightarrow> real \<Rightarrow> error + real list" where
  "penalise next_token_logits ids repitition_penalty =
     (if list_ex (\<lambda>i. length next_token_logits \<le> i) ids then Inl IndexError
      else if ids \<noteq> [] \<and> repitition_penalty = 0 then Inl NonFinite
      else
        let read = map (\<lambda>i. next_token_logits ! i) ids;
            divided = map (\<lambda>v. v / repitition_penalty) read
        in Inr (foldl (\<lambda>acc (i, v). acc[i := v]) next_token_logits (zip ids divided)))"

text \<open>Line 54.\<close>

definition scale :: "real list \<Rightarrow> real \<Rightarrow> error + real list" where
  "scale next_token_logits temperature =
     (if next_token_logits \<noteq> [] \<and> temperature = 0 then Inl NonFinite
      else Inr (map (\<lambda>v. v / temperature) next_token_logits))"

text \<open>Line 55; \<open>unk\<close> is \<^verbatim>\<open>tokenizer.convert_tokens_to_ids('[UNK]')\<close>.\<close>

definition suppress :: "logit list \<Rightarrow> token \<Rightarrow> error + logit list" where
  "suppress next_token_logits unk =
     (if unk < length next_token_logits then Inr (next_token_logits[unk := NegInf])
      else Inl IndexError)"

text \<open>One pass through the loop body, lines 49 to 58.\<close>

definition step ::
  "lm \<Rightarrow> 'g sampler \<Rightarrow> sorter \<Rightarrow> int \<Rightarrow> token \<Rightarrow> real \<Rightarrow> int \<Rightarrow> real \<Rightarrow> real \<Rightarrow> 'g
     \<Rightarrow> token list \<Rightarrow> error + (token list \<times> 'g)" where
  "step model multinomial torch_sort n_ctx unk temperature top_k top_p repitition_penalty g generated =
     (case model (window n_ctx generated) of
        Inl e \<Rightarrow> Inl e
      | Inr next_token_logits \<Rightarrow>
     (case penalise next_token_logits generated repitition_penalty of
        Inl e \<Rightarrow> Inl e
      | Inr penalised \<Rightarrow>
     (case scale penalised temperature of
        Inl e \<Rightarrow> Inl e
      | Inr scaled \<Rightarrow>
     (case suppress (map Fin scaled) unk of
        Inl e \<Rightarrow> Inl e
      | Inr suppressed \<Rightarrow>
     (case top_k_top_p_filtering torch_sort suppressed top_k top_p NegInf of
        Inl e \<Rightarrow> Inl e
      | Inr filtered_logits \<Rightarrow>
     (case softmax filtered_logits of
        None \<Rightarrow> Inl RuntimeError
      | Some probs \<Rightarrow>
          (case multinomial g probs of
             (next_token, g') \<Rightarrow> Inr (generated @ [next_token], g'))))))))"

fun generate_loop ::
  "lm \<Rightarrow> 'g sampler \<Rightarrow> sorter \<Rightarrow> int \<Rightarrow> token \<Rightarrow> real \<Rightarrow> int \<Rightarrow> real \<Rightarrow> real \<Rightarrow> nat \<Rightarrow> 'g
     \<Rightarrow> token list \<Rightarrow> error + token list" where
  "generate_loop model multinomial torch_sort n_ctx unk temperature top_k top_p repitition_penalty 0 g generated =
     Inr generated"
| "generate_loop model multinomial torch_sort n_ctx unk temperature top_k top_p repitition_penalty (Suc n) g generated =
     (case step model multinomial torch_sort n_ctx unk temperature top_k top_p repitition_penalty g generated of
        Inl e \<Rightarrow> Inl e
      | Inr (generated', g') \<Rightarrow>
          generate_loop model multinomial torch_sort n_ctx unk temperature top_k top_p repitition_penalty n g' generated')"

text \<open>
  \<^verbatim>\<open>generate\<close>: \<^verbatim>\<open>trange(length)\<close> runs the body \<open>length\<close> times, and not at all when
  \<open>length\<close> is zero or negative (\<open>len\<close> stands for the argument \<^verbatim>\<open>length\<close>). \<open>g\<close> is the state of the random generator at entry.
\<close>

definition generate ::
  "lm \<Rightarrow> 'g sampler \<Rightarrow> sorter \<Rightarrow> 'g \<Rightarrow> token list \<Rightarrow> int \<Rightarrow> int \<Rightarrow> token \<Rightarrow> real \<Rightarrow> int
     \<Rightarrow> real \<Rightarrow> real \<Rightarrow> error + token list" where
  "generate model multinomial torch_sort g context len n_ctx unk temperature top_k top_p repitition_penalty =
     generate_loop model multinomial torch_sort n_ctx unk temperature top_k top_p repitition_penalty
       (nat len) g context"

section \<open>Notions used in the statements\<close>

text \<open>
  What \<^verbatim>\<open>torch.multinomial\<close> is relied on for: whenever some probability is positive,
  the index drawn is inside the vector and has positive probability.
\<close>

definition sampler_ok :: "'g sampler \<Rightarrow> bool" where
  "sampler_ok multinomial =
     (\<forall>g probs. list_ex (\<lambda>q. 0 < q) probs \<longrightarrow>
        fst (multinomial g probs) < length probs \<and> 0 < probs ! fst (multinomial g probs))"

text \<open>
  What \<^verbatim>\<open>torch.sort(logits, descending=True)\<close> is relied on for: the result lists every
  entry once with its index, values in descending order. Nothing is said about the
  order of equal values.
\<close>

definition sort_ok :: "sorter \<Rightarrow> bool" where
  "sort_ok torch_sort =
     (\<forall>logits. mset (torch_sort logits) = mset (zip logits [0..<length logits]) \<and>
        sorted (rev (map fst (torch_sort logits))))"

text \<open>
  The concrete collaborators of the worked examples below: a language model that answers
  every context with the same scores, a sampler that draws the first index of positive
  probability, and three descending sorts. \<open>sort_desc\<close> is an insertion sort that ranks
  equal values by lower index first (a stable sort), \<open>sort_desc_last\<close> ranks them by
  higher index first, and \<open>unstable_sort\<close> does the one or the other depending on its
  input, as a sort that is not stable may.
\<close>

definition fixed_lm :: "real list \<Rightarrow> lm" where
  "fixed_lm scores context = Inr scores"

definition pick_first :: "unit sampler" where
  "pick_first g probs = (length (takeWhile (\<lambda>q. \<not> 0 < q) probs), g)"

fun insort_desc :: "logit \<times> nat \<Rightarrow> (logit \<times> nat) list \<Rightarrow> (logit \<times> nat) list" where
  "insort_desc a [] = [a]"
| "insort_desc a (b # bs) = (if fst b \<le> fst a then a # b # bs else b # insort_desc a bs)"

definition sort_desc :: sorter where
  "sort_desc logits = foldr insort_desc (zip logits [0..<length logits]) []"

fun insort_desc_last :: "logit \<times> nat \<Rightarrow> (logit \<times> nat) list \<Rightarrow> (logit \<times> nat) list" where
  "insort_desc_last a [] = [a]"
| "insort_desc_last a (b # bs) =
     (if fst b < fst a then a # b # bs else b # insort_desc_last a bs)"

definition sort_desc_last :: sorter where
  "sort_desc_last logits = foldr insort_desc_last (zip logits [0..<length logits]) []"

definition unstable_sort :: sorter where
  "unstable_sort logits =
     (if list_ex (\<lambda>x. x = NegInf) logits then sort_desc_last logits else sort_desc logits)"

section \<open>Properties of the filter\<close>

text \<open>
  C7. With \<open>top_k = 0\<close> and \<open>top_p = 0.0\<close> the filter returns its input unchanged,
  element for element, whatever the vector and the filter value.
\<close>

theorem filtering_noop:
  "top_k_top_p_filtering torch_sort logits 0 0 filter_value = Inr logits"
  by (simp add: top_k_top_p_filtering_def top_p_stage_def top_k_stage_def)

subsection \<open>Top-k\<close>

lemma topk_last_le:
  assumes "0 < k" and "k \<le> length xs" and "y \<in> set (topk xs k)"
  shows "last (topk xs k) \<le> y"
proof -
  let ?ys = "rev (sort xs)"
  have len: "length (take k ?ys) = k" using assms by simp
  have ne: "take k ?ys \<noteq> []"
    using assms(1) len by (metis length_0_conv less_numeral_extra(3))
  obtain j where j: "j < k" "y = ?ys ! j"
    using assms(3) len unfolding topk_def by (metis in_set_conv_nth nth_take)
  have last: "last (take k ?ys) = ?ys ! (k - 1)"
    using ne len by (simp add: last_conv_nth)
  have "sorted (rev ?ys)" by simp
  then have "?ys ! (k - 1) \<le> ?ys ! j"
    using j assms sorted_rev_nth_mono[of ?ys j "k - 1"] by simp
  then show ?thesis using last j by (simp add: topk_def)
qed

lemma filter_length_perm:
  "mset xs = mset ys \<Longrightarrow> length (filter P xs) = length (filter P ys)"
  by (metis mset_filter size_mset)

lemma topk_threshold_count:
  assumes "0 < k" and "k \<le> length xs"
  shows "k \<le> length (filter (\<lambda>x. \<not> x < last (topk xs k)) xs)"
proof -
  let ?ys = "rev (sort xs)"
  let ?P = "\<lambda>x. \<not> x < last (topk xs k)"
  have "length (filter ?P xs) = length (filter ?P ?ys)"
    by (rule filter_length_perm) simp
  also have "\<dots> = length (filter ?P (take k ?ys)) + length (filter ?P (drop k ?ys))"
    by (metis append_take_drop_id filter_append length_append)
  also have "filter ?P (take k ?ys) = take k ?ys"
    using topk_last_le[OF assms] by (auto simp: topk_def filter_id_conv not_less)
  finally show ?thesis using assms by simp
qed

lemma masked_fill_map:
  "masked_fill xs (map P xs) v = map (\<lambda>x. if P x then v else x) xs"
  by (induction xs) (auto simp: masked_fill_def)

lemma top_k_stage_map:
  "top_k_stage xs k fv =
     (if 0 < min k (int (length xs))
      then map (\<lambda>x. if x < last (topk xs (nat (min k (int (length xs))))) then fv else x) xs
      else xs)"
  by (simp add: top_k_stage_def Let_def masked_fill_map)

lemma length_top_k_stage: "length (top_k_stage xs k fv) = length xs"
  by (simp add: top_k_stage_map)

lemma top_k_stage_active:
  assumes "0 < k" and "k \<le> int (length xs)"
  shows "top_k_stage xs k fv = map (\<lambda>x. if x < last (topk xs (nat k)) then fv else x) xs"
  using assms by (simp add: top_k_stage_map min_def)

text \<open>The scenario of the specification: five logits, \<open>top_k = 2\<close>.\<close>

lemma top_k_scenario:
  "top_k_top_p_filtering sort_desc [Fin 1, Fin 2, Fin 3, Fin 4, Fin (1 / 2)] 2 0 NegInf
     = Inr [NegInf, NegInf, Fin 3, Fin 4, NegInf]"
  by (simp add: top_k_top_p_filtering_def top_p_stage_def top_k_stage_def topk_def
      masked_fill_def less_logit_def)

text \<open>
  C2 as stated: after top-k filtering with \<open>0 < k \<le> vocabulary size\<close>, at least \<open>k\<close> entries
  differ from \<open>filter_value\<close>. The vector \<open>[-inf, 1]\<close> with \<open>k = 2\<close> is returned as it is
  (nothing is below the second largest value, \<open>-inf\<close>), and only one of its entries
  differs from the filter value \<open>-inf\<close>. \<^verbatim>\<open>generate\<close> passes such vectors: the logit of
  the unknown token is \<open>-inf\<close> before the filter runs.
\<close>

theorem top_k_count_counterexample:
  "top_k_top_p_filtering sort_desc [NegInf, Fin 1] 2 0 NegInf = Inr [NegInf, Fin 1] \<and>
   length (removeAll NegInf [NegInf, Fin 1]) < 2"
  by (simp add: top_k_top_p_filtering_def top_p_stage_def top_k_stage_def topk_def
      masked_fill_def less_logit_def)

text \<open>
  C2 as amended: for every logit vector and every \<open>k\<close> with \<open>0 < k \<le> vocabulary size\<close>
  (\<open>top_p = 0\<close>), exactly the entries strictly below the \<open>k\<close>-th largest logit are
  replaced by \<open>filter_value\<close>, every other entry (ties with the threshold included) is
  returned unchanged, and at least \<open>k\<close> entries are retained in this way. If no entry of
  the input equals \<open>filter_value\<close>, at least \<open>k\<close> entries of the output differ from it.
\<close>

theorem top_k_keeps_k:
  assumes "0 < k" and "k \<le> int (length logits)"
  shows "\<exists>out. top_k_top_p_filtering torch_sort logits k 0 filter_value = Inr out \<and>
           length out = length logits \<and>
           (\<forall>i<length logits.
              out ! i = (if logits ! i < last (topk logits (nat k)) then filter_value
                         else logits ! i)) \<and>
           nat k \<le> length (filter (\<lambda>x. \<not> x < last (topk logits (nat k))) logits) \<and>
           ((\<forall>x\<in>set logits. x \<noteq> filter_value) \<longrightarrow>
              nat k \<le> length (filter (\<lambda>x. x \<noteq> filter_value) out))"
proof -
  let ?thr = "last (topk logits (nat k))"
  let ?out = "map (\<lambda>x. if x < ?thr then filter_value else x) logits"
  have out: "top_k_top_p_filtering torch_sort logits k 0 filter_value = Inr ?out"
    using assms by (simp add: top_k_top_p_filtering_def top_p_stage_def top_k_stage_active)
  have kept: "nat k \<le> length (filter (\<lambda>x. \<not> x < ?thr) logits)"
    using assms by (intro topk_threshold_count) auto
  have cnt: "nat k \<le> length (filter (\<lambda>x. x \<noteq> filter_value) ?out)"
    if "\<forall>x\<in>set logits. x \<noteq> filter_value"
  proof -
    have "filter (\<lambda>x. (if x < ?thr then filter_value else x) \<noteq> filter_value) logits
            = filter (\<lambda>x. \<not> x < ?thr) logits"
      using that by (intro filter_cong) auto
    then show ?thesis using kept by (simp add: filter_map comp_def)
  qed
  show ?thesis using out kept cnt by auto
qed

theorem top_k_keeps_k_witness:
  "\<exists>out. top_k_top_p_filtering sort_desc [Fin 1, Fin 2, Fin 3, Fin 4, Fin (1 / 2)] 2 0 NegInf = Inr out \<and>
     length out = 5 \<and> 2 \<le> length (filter (\<lambda>x. x \<noteq> NegInf) out)"
  using top_k_keeps_k[of 2 "[Fin 1, Fin 2, Fin 3, Fin 4, Fin (1 / 2)]" sort_desc NegInf] by auto

subsection \<open>The descending sort\<close>

text \<open>What follows from \<open>sort_ok\<close> alone, for any order of equal values.\<close>

lemma descending_iff:
  "sorted (rev (map fst l)) \<longleftrightarrow> sorted_wrt (\<lambda>a b. fst b \<le> fst a) l"
  by (simp add: sorted_wrt_rev sorted_wrt_map sorted_map flip: rev_map)

lemma sort_ok_mset:
  "sort_ok torch_sort \<Longrightarrow> mset (torch_sort xs) = mset (zip xs [0..<length xs])"
  by (simp add: sort_ok_def)

lemma sort_ok_descending:
  "sort_ok torch_sort \<Longrightarrow> sorted_wrt (\<lambda>a b. fst b \<le> fst a) (torch_sort xs)"
  by (simp add: sort_ok_def flip: descending_iff)

lemma length_sorted: "sort_ok torch_sort \<Longrightarrow> length (torch_sort xs) = length xs"
  by (metis sort_ok_mset size_mset length_zip length_upt min.idem diff_zero)

lemma set_sorted: "sort_ok torch_sort \<Longrightarrow> set (torch_sort xs) = set (zip xs [0..<length xs])"
  by (metis sort_ok_mset set_mset_mset)

lemma sorted_mem:
  "sort_ok torch_sort \<Longrightarrow> (v, i) \<in> set (torch_sort xs) \<longleftrightarrow> i < length xs \<and> v = xs ! i"
  by (auto simp: set_sorted in_set_zip)

lemma map_snd_sorted:
  assumes "sort_ok torch_sort"
  shows "mset (map snd (torch_sort xs)) = mset [0..<length xs]"
proof -
  have "map snd (zip xs [0..<length xs]) = [0..<length xs]"
    by (simp add: map_snd_zip)
  then show ?thesis
    by (metis mset_map sort_ok_mset[OF assms])
qed

lemma distinct_map_snd_sorted:
  "sort_ok torch_sort \<Longrightarrow> distinct (map snd (torch_sort xs))"
  by (metis map_snd_sorted distinct_upt mset_eq_imp_distinct_iff)

lemma map_fst_sorted:
  assumes "sort_ok torch_sort"
  shows "mset (map fst (torch_sort xs)) = mset xs"
proof -
  have "map fst (zip xs [0..<length xs]) = xs"
    by (simp add: map_fst_zip)
  then show ?thesis
    by (metis mset_map sort_ok_mset[OF assms])
qed

lemma sorted_nth:
  assumes "sort_ok torch_sort" and "j < length xs"
  shows "snd (torch_sort xs ! j) < length xs \<and>
         fst (torch_sort xs ! j) = xs ! snd (torch_sort xs ! j)"
proof -
  have "torch_sort xs ! j \<in> set (torch_sort xs)"
    using assms by (simp add: length_sorted)
  then show ?thesis
    using sorted_mem[OF assms(1), of "fst (torch_sort xs ! j)" "snd (torch_sort xs ! j)" xs]
    by simp
qed

lemma sorted_position:
  assumes "sort_ok torch_sort" and "i < length xs"
  shows "\<exists>j<length xs. torch_sort xs ! j = (xs ! i, i)"
proof -
  have "(xs ! i, i) \<in> set (torch_sort xs)" using assms by (simp add: sorted_mem)
  then show ?thesis by (metis in_set_conv_nth length_sorted[OF assms(1)])
qed

text \<open>The three concrete sorts meet \<open>sort_ok\<close>.\<close>

lemma mset_insort_desc: "mset (insort_desc a bs) = add_mset a (mset bs)"
  by (induction bs) auto

lemma mset_insort_desc_last: "mset (insort_desc_last a bs) = add_mset a (mset bs)"
  by (induction bs) auto

lemma descending_insort_desc:
  "sorted_wrt (\<lambda>a b. fst b \<le> fst a) bs \<Longrightarrow> sorted_wrt (\<lambda>a b. fst b \<le> fst a) (insort_desc a bs)"
proof (induction bs)
  case Nil
  then show ?case by simp
next
  case (Cons b bs)
  have set: "set (insort_desc a bs) = insert a (set bs)"
    by (metis mset_insort_desc set_mset_add_mset_insert set_mset_mset)
  show ?case
  proof (cases "fst b \<le> fst a")
    case True
    with Cons.prems show ?thesis by auto
  next
    case False
    with Cons show ?thesis by (auto simp: set)
  qed
qed

lemma descending_insort_desc_last:
  "sorted_wrt (\<lambda>a b. fst b \<le> fst a) bs \<Longrightarrow>
   sorted_wrt (\<lambda>a b. fst b \<le> fst a) (insort_desc_last a bs)"
proof (induction bs)
  case Nil
  then show ?case by simp
next
  case (Cons b bs)
  have set: "set (insort_desc_last a bs) = insert a (set bs)"
    by (metis mset_insort_desc_last set_mset_add_mset_insert set_mset_mset)
  show ?case
  proof (cases "fst b < fst a")
    case True
    with Cons.prems show ?thesis by auto
  next
    case False
    with Cons show ?thesis by (auto simp: set)
  qed
qed

lemma sort_ok_sort_desc: "sort_ok sort_desc"
proof -
  have "mset (foldr insort_desc ps []) = mset ps" for ps
    by (induction ps) (auto simp: mset_insort_desc)
  moreover have "sorted_wrt (\<lambda>a b. fst b \<le> fst a) (foldr insort_desc ps [])" for ps
    by (induction ps) (auto simp: descending_insort_desc)
  ultimately show ?thesis
    by (simp add: sort_ok_def sort_desc_def descending_iff)
qed

lemma sort_ok_sort_desc_last: "sort_ok sort_desc_last"
proof -
  have "mset (foldr insort_desc_last ps []) = mset ps" for ps
    by (induction ps) (auto simp: mset_insort_desc_last)
  moreover have "sorted_wrt (\<lambda>a b. fst b \<le> fst a) (foldr insort_desc_last ps [])" for ps
    by (induction ps) (auto simp: descending_insort_desc_last)
  ultimately show ?thesis
    by (simp add: sort_ok_def sort_desc_last_def descending_iff)
qed

lemma sort_ok_unstable_sort: "sort_ok unstable_sort"
  using sort_ok_sort_desc sort_ok_sort_desc_last
  by (simp add: sort_ok_def unstable_sort_def)

subsection \<open>Index writes, cumulative sums and softmax\<close>

lemma length_index_fill: "length (index_fill xs idxs v) = length xs"
  unfolding index_fill_def by (induction idxs arbitrary: xs) auto

lemma index_fill_nth:
  "i < length xs \<Longrightarrow> index_fill xs idxs v ! i = (if i \<in> set idxs then v else xs ! i)"
  unfolding index_fill_def
proof (induction idxs arbitrary: xs rule: rev_induct)
  case Nil
  then show ?case by simp
next
  case (snoc a idxs)
  have "length (foldl (\<lambda>acc i. acc[i := v]) xs idxs) = length xs"
    using length_index_fill[of xs idxs v] by (simp add: index_fill_def)
  with snoc show ?case
    by (cases "a = i") (auto simp: nth_list_update)
qed

lemma length_cumsum_from: "length (cumsum_from a xs) = length xs"
  by (induction xs arbitrary: a) auto

lemma cumsum_from_nth:
  "j < length xs \<Longrightarrow> cumsum_from a xs ! j = a + sum_list (take (Suc j) xs)"
proof (induction xs arbitrary: a j)
  case Nil
  then show ?case by simp
next
  case (Cons x xs)
  then show ?case by (cases j) (auto simp: add.assoc)
qed

lemma cumsum_nth: "j < length xs \<Longrightarrow> cumsum xs ! j = sum_list (take (Suc j) xs)"
  by (simp add: cumsum_def cumsum_from_nth)

lemma expl_nonneg: "0 \<le> expl x"
  by (cases x) auto

lemma expl_pos_iff: "0 < expl x \<longleftrightarrow> x \<noteq> NegInf"
  by (cases x) auto

lemma sum_expl_nonneg: "0 \<le> sum_list (map expl xs)"
  by (rule sum_list_nonneg) (auto simp: expl_nonneg)

lemma sum_expl_pos:
  assumes "\<exists>x\<in>set xs. x \<noteq> NegInf"
  shows "0 < sum_list (map expl xs)"
  using assms
proof (induction xs)
  case Nil
  then show ?case by simp
next
  case (Cons x xs)
  show ?case
  proof (cases "x = NegInf")
    case True
    with Cons show ?thesis by auto
  next
    case False
    then have "0 < expl x" by (simp add: expl_pos_iff)
    with sum_expl_nonneg[of xs] show ?thesis by simp
  qed
qed

lemma softmax_finite:
  assumes "\<exists>x\<in>set xs. x \<noteq> NegInf"
  shows "softmax xs = Some (map (\<lambda>x. expl x / sum_list (map expl xs)) xs)"
  using assms by (auto simp: softmax_def list_all_iff)

lemma softmax_all_neginf:
  assumes "xs \<noteq> []" and "\<forall>x\<in>set xs. x = NegInf"
  shows "softmax xs = None"
  using assms by (auto simp: softmax_def list_all_iff)

lemma sum_list_map_divide:
  "sum_list (map (\<lambda>x. f x / (c::real)) xs) = sum_list (map f xs) / c"
  by (induction xs) (auto simp: add_divide_distrib)

lemma mono_flags:
  assumes "\<And>i j. i \<le> j \<Longrightarrow> j < length fl \<Longrightarrow> fl ! i \<Longrightarrow> fl ! j"
  shows "fl = replicate (length (takeWhile Not fl)) False
            @ replicate (length fl - length (takeWhile Not fl)) True"
proof (rule nth_equalityI)
  show "length fl = length (replicate (length (takeWhile Not fl)) False
            @ replicate (length fl - length (takeWhile Not fl)) True)"
    using length_takeWhile_le[of Not fl] by simp
next
  fix j assume j: "j < length fl"
  let ?m = "length (takeWhile Not fl)"
  show "fl ! j = (replicate ?m False @ replicate (length fl - ?m) True) ! j"
  proof (cases "j < ?m")
    case True
    then have "\<not> fl ! j"
      by (metis nth_mem set_takeWhileD takeWhile_nth)
    with True show ?thesis by (simp add: nth_append)
  next
    case False
    then have "?m < length fl" using j by simp
    then have "fl ! ?m" using nth_length_takeWhile[of Not fl] by simp
    then have "fl ! j" using assms[of ?m j] False j by simp
    with False j show ?thesis by (simp add: nth_append)
  qed
qed

lemma removed_drop:
  assumes "m \<le> length ys"
  shows "map snd (filter fst (zip (replicate m False @ replicate (length ys - m) True) ys))
           = drop m ys"
proof -
  have "zip (replicate m False @ replicate (length ys - m) True) (take m ys @ drop m ys)
          = zip (replicate m False) (take m ys) @ zip (replicate (length ys - m) True) (drop m ys)"
    using assms by (intro zip_append) simp
  moreover have "filter fst (zip (replicate m False) zs) = []" for zs :: "'a list"
    by (auto simp: filter_empty_conv dest: set_zip_leftD)
  moreover have "filter fst (zip (replicate k True) zs) = zip (replicate k True) zs" for k and zs :: "'a list"
    by (auto simp: filter_id_conv dest: set_zip_leftD)
  ultimately show ?thesis by (simp add: map_snd_zip)
qed

lemma sum_list_perm:
  "mset xs = mset ys \<Longrightarrow> sum_list (map f xs) = sum_list (map (f :: 'a \<Rightarrow> real) ys)"
  by (metis mset_map sum_mset_sum_list)

lemma sum_expl_sorted:
  "sort_ok torch_sort \<Longrightarrow>
   sum_list (map expl (map fst (torch_sort xs))) = sum_list (map expl xs)"
  by (rule sum_list_perm) (rule map_fst_sorted)

lemma finite_entry_sorted:
  "sort_ok torch_sort \<Longrightarrow>
   (\<exists>x\<in>set (map fst (torch_sort xs)). x \<noteq> NegInf) \<longleftrightarrow> (\<exists>x\<in>set xs. x \<noteq> NegInf)"
  by (metis map_fst_sorted set_mset_mset)

lemma shift_nth:
  assumes "j < length fl"
  shows "(False # butlast fl) ! j = (case j of 0 \<Rightarrow> False | Suc j' \<Rightarrow> fl ! j')"
  using assms by (cases j) (auto simp: nth_butlast)

lemma shifted_flags:
  assumes ok: "sort_ok torch_sort" and fin: "\<exists>x\<in>set xs. x \<noteq> NegInf" and p: "0 < p"
  shows "shift_right (above_threshold (map fst (torch_sort xs)) p) =
           Inr (map (\<lambda>j. p < sum_list (map (expl \<circ> fst) (take j (torch_sort xs)))
                              / sum_list (map expl xs)) [0..<length xs])"
proof -
  let ?srt = "torch_sort xs"
  let ?vals = "map fst ?srt"
  let ?Z = "sum_list (map expl xs)"
  let ?probs = "map (\<lambda>x. expl x / ?Z) ?vals"
  define fl where "fl = map (\<lambda>c. p < c) (cumsum ?probs)"
  define g where "g = (\<lambda>j. p < sum_list (map (expl \<circ> fst) (take j ?srt)) / ?Z)"
  have n: "length ?srt = length xs" using ok by (rule length_sorted)
  have ne: "xs \<noteq> []" using fin by auto
  have sm: "softmax ?vals = Some ?probs"
    using softmax_finite[of ?vals] fin finite_entry_sorted[OF ok, of xs]
    by (simp only: sum_expl_sorted[OF ok])
  then have ab: "above_threshold ?vals p = fl"
    by (simp add: above_threshold_def fl_def)
  have lfl: "length fl = length xs"
    by (simp add: fl_def cumsum_def length_cumsum_from n)
  have take_probs: "sum_list (take j ?probs) = sum_list (map (expl \<circ> fst) (take j ?srt)) / ?Z" for j
    by (simp add: take_map sum_list_map_divide[symmetric] comp_def)
  have fl_nth: "fl ! j' = g (Suc j')" if "j' < length xs" for j'
  proof -
    have "fl ! j' = (p < cumsum ?probs ! j')"
      using that n by (simp add: fl_def cumsum_def length_cumsum_from)
    also have "cumsum ?probs ! j' = sum_list (take (Suc j') ?probs)"
      using that n by (intro cumsum_nth) simp
    finally show ?thesis by (simp only: take_probs g_def)
  qed
  have "False # butlast fl = map g [0..<length xs]"
  proof (rule nth_equalityI)
    show "length (False # butlast fl) = length (map g [0..<length xs])"
      using lfl ne by simp
  next
    fix j assume "j < length (False # butlast fl)"
    then have j: "j < length xs" using lfl ne by simp
    show "(False # butlast fl) ! j = map g [0..<length xs] ! j"
    proof (cases j)
      case 0
      with p j show ?thesis by (simp add: g_def)
    next
      case (Suc j')
      then show ?thesis
        using j lfl shift_nth[of j fl] fl_nth[of j'] by simp
    qed
  qed
  moreover have "fl \<noteq> []" using lfl ne by (metis length_0_conv)
  ultimately show ?thesis
    by (simp add: ab shift_right_def g_def)
qed

lemma shifted_flags_nan:
  assumes ok: "sort_ok torch_sort" and ne: "xs \<noteq> []" and inf: "\<forall>x\<in>set xs. x = NegInf"
  shows "shift_right (above_threshold (map fst (torch_sort xs)) p) = Inr (replicate (length xs) False)"
proof -
  have "\<forall>x\<in>set (map fst (torch_sort xs)). x = NegInf"
    using inf by (metis map_fst_sorted[OF ok] set_mset_mset)
  moreover have "map fst (torch_sort xs) \<noteq> []"
    using ne length_sorted[OF ok, of xs] by auto
  ultimately have "softmax (map fst (torch_sort xs)) = None"
    by (rule softmax_all_neginf[rotated])
  then have "above_threshold (map fst (torch_sort xs)) p = replicate (length xs) False"
    by (simp add: above_threshold_def length_sorted[OF ok])
  moreover have "False # butlast (replicate (length xs) False) = replicate (length xs) False"
  proof (cases xs)
    case Nil
    with ne show ?thesis by simp
  next
    case (Cons a list)
    have "replicate (Suc (length list)) False = replicate (length list) False @ [False]"
      by (simp add: replicate_append_same)
    then have "butlast (replicate (Suc (length list)) False) = replicate (length list) False"
      by (simp only: butlast_snoc)
    with Cons show ?thesis by simp
  qed
  ultimately show ?thesis using ne by (simp add: shift_right_def)
qed

subsection \<open>Top-p\<close>

lemma top_p_remove_finite:
  assumes ok: "sort_ok torch_sort" and fin: "\<exists>x\<in>set xs. x \<noteq> NegInf" and p: "0 < p"
  shows "top_p_remove torch_sort xs p =
           Inr (map snd (filter fst (zip
             (map (\<lambda>j. p < sum_list (map (expl \<circ> fst) (take j (torch_sort xs)))
                              / sum_list (map expl xs)) [0..<length xs])
             (map snd (torch_sort xs)))))"
  by (simp add: top_p_remove_def Let_def shifted_flags[OF ok fin p])

lemma top_p_remove_nan:
  assumes ok: "sort_ok torch_sort" and "xs \<noteq> []" and "\<forall>x\<in>set xs. x = NegInf"
  shows "top_p_remove torch_sort xs p = Inr []"
proof -
  have "filter fst (zip (replicate (length xs) False) (map snd (torch_sort xs))) = []"
    by (auto simp: filter_empty_conv dest: set_zip_leftD)
  then show ?thesis
    by (simp add: top_p_remove_def Let_def shifted_flags_nan[OF assms])
qed

lemma top_p_remove_empty:
  assumes "sort_ok torch_sort"
  shows "top_p_remove torch_sort [] p = Inl IndexError"
proof -
  have "torch_sort [] = []" using length_sorted[OF assms, of "[]"] by simp
  then show ?thesis
    by (simp add: top_p_remove_def above_threshold_def softmax_def cumsum_def shift_right_def)
qed

lemma mass_take_mono:
  assumes "i \<le> j"
  shows "sum_list (map (expl \<circ> fst) (take i ps)) \<le> sum_list (map (expl \<circ> fst) (take j ps))"
proof -
  have "take j ps = take i ps @ take (j - i) (drop i ps)"
    using assms by (metis le_add_diff_inverse take_add)
  moreover have "0 \<le> sum_list (map (expl \<circ> fst) (take (j - i) (drop i ps)))"
    by (rule sum_list_nonneg) (auto simp: expl_nonneg)
  ultimately show ?thesis by simp
qed

lemma top_p_prefix:
  assumes ok: "sort_ok torch_sort" and fin: "\<exists>x\<in>set xs. x \<noteq> NegInf" and p: "0 < p" "p < 1"
  shows "\<exists>m. 1 \<le> m \<and> m \<le> length xs \<and>
           top_p_remove torch_sort xs p = Inr (map snd (drop m (torch_sort xs))) \<and>
           p < sum_list (map (expl \<circ> fst) (take m (torch_sort xs))) / sum_list (map expl xs) \<and>
           sum_list (map (expl \<circ> fst) (take (m - 1) (torch_sort xs))) / sum_list (map expl xs) \<le> p"
proof -
  let ?srt = "torch_sort xs"
  let ?Z = "sum_list (map expl xs)"
  define g where "g = (\<lambda>j. p < sum_list (map (expl \<circ> fst) (take j ?srt)) / ?Z)"
  define fl where "fl = map g [0..<length xs]"
  define m where "m = length (takeWhile Not fl)"
  have Z: "0 < ?Z" using fin by (rule sum_expl_pos)
  have n: "length ?srt = length xs" using ok by (rule length_sorted)
  have ne: "0 < length xs" using fin by auto
  have lfl: "length fl = length xs" by (simp add: fl_def)
  have g_mono: "g j" if "i \<le> j" "g i" for i j
  proof -
    have "sum_list (map (expl \<circ> fst) (take i ?srt)) / ?Z \<le> sum_list (map (expl \<circ> fst) (take j ?srt)) / ?Z"
      using mass_take_mono[OF that(1), of ?srt] Z by (simp add: divide_right_mono)
    with that(2) show ?thesis by (simp add: g_def)
  qed
  have "\<And>i j. i \<le> j \<Longrightarrow> j < length fl \<Longrightarrow> fl ! i \<Longrightarrow> fl ! j"
    using g_mono by (simp add: fl_def)
  then have shape: "fl = replicate m False @ replicate (length xs - m) True"
    using mono_flags[of fl] by (simp add: m_def lfl)
  have m_le: "m \<le> length xs"
    using length_takeWhile_le[of Not fl] by (simp add: m_def lfl)
  have at_m: "g m" if "m < length xs"
  proof -
    have "fl ! m" using that nth_length_takeWhile[of Not fl] by (simp add: m_def lfl)
    then show ?thesis using that by (simp add: fl_def)
  qed
  have below_m: "\<not> g j" if "j < m" for j
  proof -
    have "\<not> fl ! j" using that unfolding m_def by (metis nth_mem set_takeWhileD takeWhile_nth)
    then show ?thesis using that m_le by (simp add: fl_def)
  qed
  have g0: "\<not> g 0" using p by (simp add: g_def)
  have m_pos: "1 \<le> m"
  proof (rule ccontr)
    assume "\<not> 1 \<le> m"
    then have "m = 0" by simp
    with at_m ne g0 show False by simp
  qed
  have gm: "g m"
  proof (cases "m < length xs")
    case True
    then show ?thesis by (rule at_m)
  next
    case False
    then have "m = length xs" using m_le by simp
    then have "take m ?srt = ?srt" using n by simp
    moreover have "sum_list (map (expl \<circ> fst) ?srt) = ?Z"
      using sum_expl_sorted[OF ok, of xs] by (simp add: comp_def)
    ultimately show ?thesis using p Z by (simp add: g_def)
  qed
  have rm: "top_p_remove torch_sort xs p = Inr (map snd (drop m ?srt))"
  proof -
    have "top_p_remove torch_sort xs p = Inr (map snd (filter fst (zip fl (map snd ?srt))))"
      using top_p_remove_finite[OF ok fin p(1)] by (simp add: fl_def g_def)
    also have "map snd (filter fst (zip fl (map snd ?srt))) = drop m (map snd ?srt)"
      using removed_drop[of m "map snd ?srt"] m_le n by (simp add: shape[symmetric])
    finally show ?thesis by (simp add: drop_map)
  qed
  have "\<not> g (m - 1)" using below_m[of "m - 1"] m_pos by simp
  with rm gm m_pos m_le show ?thesis
    unfolding g_def by (intro exI[of _ m]) (simp add: not_less)
qed

lemma take_softmax_sum:
  assumes ok: "sort_ok torch_sort" and fin: "\<exists>x\<in>set xs. x \<noteq> NegInf"
  shows "softmax (map fst (torch_sort xs)) =
           Some (map (\<lambda>x. expl x / sum_list (map expl xs)) (map fst (torch_sort xs)))"
    and "sum_list (take j (map (\<lambda>x. expl x / sum_list (map expl xs)) (map fst (torch_sort xs))))
           = sum_list (map (expl \<circ> fst) (take j (torch_sort xs))) / sum_list (map expl xs)"
proof -
  show "softmax (map fst (torch_sort xs)) =
           Some (map (\<lambda>x. expl x / sum_list (map expl xs)) (map fst (torch_sort xs)))"
    using softmax_finite[of "map fst (torch_sort xs)"] fin finite_entry_sorted[OF ok, of xs]
    by (simp only: sum_expl_sorted[OF ok])
  show "sum_list (take j (map (\<lambda>x. expl x / sum_list (map expl xs)) (map fst (torch_sort xs))))
           = sum_list (map (expl \<circ> fst) (take j (torch_sort xs))) / sum_list (map expl xs)"
    by (simp add: take_map sum_list_map_divide[symmetric] comp_def)
qed

text \<open>
  C3 as stated: with \<open>top_p = p\<close> in \<open>(0, 1)\<close> the survivors are the shortest prefix of
  the descending order whose probabilities sum to at least \<open>p\<close>, so that dropping the
  lowest-ranked survivor brings the sum below \<open>p\<close>. For the logits \<open>[0, 0]\<close> and
  \<open>p = 1/2\<close> the probabilities are \<open>[1/2, 1/2]\<close>; the first cumulative sum, \<open>1/2\<close>, does
  not exceed \<open>p\<close>, so both entries survive, although the first alone already reaches
  \<open>p\<close>: without the lowest-ranked survivor the sum is \<open>1/2\<close>, not below \<open>p\<close>. (The two
  logits are equal, so each order of the sort leads to this result; the run below uses
  \<open>sort_desc\<close>.)
\<close>

theorem top_p_minimality_counterexample:
  "top_k_top_p_filtering sort_desc [Fin 0, Fin 0] 0 (1 / 2) NegInf = Inr [Fin 0, Fin 0] \<and>
   softmax [Fin 0, Fin 0] = Some [1 / 2, 1 / 2] \<and>
   \<not> sum_list (butlast [1 / 2, 1 / 2]) < (1 / 2 :: real)"
  by (simp add: top_k_top_p_filtering_def top_k_stage_def top_p_stage_def
      softmax_def top_p_remove_def sort_desc_def
      above_threshold_def cumsum_def shift_right_def index_fill_def)

text \<open>
  C3 as amended: for every logit vector with at least one finite entry and every \<open>p\<close> in
  \<open>(0, 1)\<close>, top-p filtering alone keeps exactly the first \<open>m\<close> positions of the
  descending order that \<^verbatim>\<open>torch.sort\<close> returns, for some \<open>m \<ge> 1\<close>: these entries are
  returned unchanged and all later ones are replaced by \<open>filter_value\<close>. The probabilities
  of the survivors sum to more than \<open>p\<close>, and without the lowest-ranked survivor the sum
  is at most \<open>p\<close> (it may equal \<open>p\<close>): the survivors are the shortest prefix whose sum
  exceeds \<open>p\<close>. This holds for every order that the sort gives equal values.
\<close>

theorem top_p_nucleus:
  assumes "sort_ok torch_sort" and "\<exists>x\<in>set logits. x \<noteq> NegInf" and "0 < p" and "p < 1"
  shows "\<exists>m probs out.
           1 \<le> m \<and> m \<le> length logits \<and>
           softmax (map fst (torch_sort logits)) = Some probs \<and>
           top_k_top_p_filtering torch_sort logits 0 p filter_value = Inr out \<and>
           length out = length logits \<and>
           (\<forall>j<length logits.
              out ! snd (torch_sort logits ! j) =
                (if j < m then logits ! snd (torch_sort logits ! j) else filter_value)) \<and>
           p < sum_list (take m probs) \<and>
           sum_list (take (m - 1) probs) \<le> p"
proof -
  let ?srt = "torch_sort logits"
  let ?Z = "sum_list (map expl logits)"
  let ?probs = "map (\<lambda>x. expl x / ?Z) (map fst ?srt)"
  obtain m where m: "1 \<le> m" "m \<le> length logits"
    "top_p_remove torch_sort logits p = Inr (map snd (drop m ?srt))"
    "p < sum_list (map (expl \<circ> fst) (take m ?srt)) / ?Z"
    "sum_list (map (expl \<circ> fst) (take (m - 1) ?srt)) / ?Z \<le> p"
    using top_p_prefix[OF assms] by blast
  let ?out = "index_fill logits (map snd (drop m ?srt)) filter_value"
  have out: "top_k_top_p_filtering torch_sort logits 0 p filter_value = Inr ?out"
    using assms(3) m(3) by (simp add: top_k_top_p_filtering_def top_k_stage_def top_p_stage_def)
  have n: "length ?srt = length logits" using assms(1) by (rule length_sorted)
  have nth: "?out ! snd (?srt ! j) = (if j < m then logits ! snd (?srt ! j) else filter_value)"
    if j: "j < length logits" for j
  proof -
    have d: "distinct (map snd ?srt)" using assms(1) by (rule distinct_map_snd_sorted)
    have mem: "snd (?srt ! j) \<in> set (map snd (drop m ?srt)) \<longleftrightarrow> m \<le> j"
    proof
      assume "snd (?srt ! j) \<in> set (map snd (drop m ?srt))"
      then obtain l where l: "l < length (drop m ?srt)" "snd (drop m ?srt ! l) = snd (?srt ! j)"
        by (auto simp: in_set_conv_nth)
      then have ml: "m + l < length (map snd ?srt)" "j < length (map snd ?srt)"
        and eq: "map snd ?srt ! (m + l) = map snd ?srt ! j"
        using j n by auto
      have "m + l = j"
        using nth_eq_iff_index_eq[OF d ml] eq by blast
      then show "m \<le> j" by simp
    next
      assume "m \<le> j"
      then have "?srt ! j = drop m ?srt ! (j - m)" "j - m < length (drop m ?srt)"
        using j n by auto
      then show "snd (?srt ! j) \<in> set (map snd (drop m ?srt))"
        by (metis image_eqI nth_mem set_map)
    qed
    have "snd (?srt ! j) < length logits" using sorted_nth[OF assms(1) j] by simp
    then show ?thesis using mem by (auto simp: index_fill_nth)
  qed
  show ?thesis
    using m(1,2,4,5) out nth take_softmax_sum[OF assms(1,2)]
    by (intro exI[of _ m] exI[of _ ?probs] exI[of _ ?out]) (simp add: length_index_fill)
qed

theorem top_p_nucleus_witness:
  "\<exists>m probs out.
     1 \<le> m \<and> m \<le> length [Fin 0, Fin 0] \<and>
     softmax (map fst (sort_desc [Fin 0, Fin 0])) = Some probs \<and>
     top_k_top_p_filtering sort_desc [Fin 0, Fin 0] 0 (1 / 3) NegInf = Inr out \<and>
     1 / 3 < sum_list (take m probs) \<and> sum_list (take (m - 1) probs) \<le> 1 / 3"
proof -
  have "\<exists>x\<in>set [Fin 0, Fin 0]. x \<noteq> NegInf" by simp
  from top_p_nucleus[OF sort_ok_sort_desc this, of "1 / 3" NegInf] show ?thesis by auto
qed

subsection \<open>The combined filter\<close>

lemma length_above_threshold: "length (above_threshold vals p) = length vals"
  by (auto simp: above_threshold_def softmax_def cumsum_def length_cumsum_from)

lemma top_p_remove_nonempty:
  assumes ok: "sort_ok torch_sort" and ne: "xs \<noteq> []"
  shows "\<exists>rem. top_p_remove torch_sort xs p = Inr rem \<and> snd (hd (torch_sort xs)) \<notin> set rem \<and>
           set rem \<subseteq> {..<length xs}"
proof -
  let ?srt = "torch_sort xs"
  let ?fl = "above_threshold (map fst ?srt) p"
  let ?rem = "map snd (filter fst (zip (False # butlast ?fl) (map snd ?srt)))"
  obtain a rest where srt: "?srt = a # rest"
    using ne length_sorted[OF ok, of xs] by (cases ?srt) auto
  have "?fl \<noteq> []"
    using ne length_above_threshold[of "map fst ?srt" p] length_sorted[OF ok, of xs] by auto
  then have rm: "top_p_remove torch_sort xs p = Inr ?rem"
    by (simp add: top_p_remove_def Let_def shift_right_def)
  have "set ?rem \<subseteq> set (map snd rest)"
    by (auto simp: srt dest!: set_zip_rightD)
  moreover have "snd a \<notin> set (map snd rest)"
    using distinct_map_snd_sorted[OF ok, of xs] by (simp add: srt)
  moreover have "set (map snd rest) \<subseteq> {..<length xs}"
  proof
    fix i assume "i \<in> set (map snd rest)"
    then obtain v where "(v, i) \<in> set rest" by auto
    then have "(v, i) \<in> set (torch_sort xs)" by (simp add: srt)
    then show "i \<in> {..<length xs}" using ok by (simp add: sorted_mem)
  qed
  ultimately show ?thesis using rm srt by auto
qed

lemma top_p_stage_nonempty:
  assumes ok: "sort_ok torch_sort" and ne: "xs \<noteq> []"
  shows "\<exists>rem. top_p_stage torch_sort xs p fv = Inr (index_fill xs rem fv) \<and>
           (0 < p \<longrightarrow> top_p_remove torch_sort xs p = Inr rem \<and> snd (hd (torch_sort xs)) \<notin> set rem) \<and>
           (\<not> 0 < p \<longrightarrow> rem = [])"
proof (cases "0 < p")
  case True
  then show ?thesis
    using top_p_remove_nonempty[OF ok ne, of p] by (auto simp: top_p_stage_def)
next
  case False
  then show ?thesis
    by (intro exI[of _ "[]"]) (simp add: top_p_stage_def index_fill_def)
qed

lemma hd_sorted_max:
  assumes ok: "sort_ok torch_sort" and ne: "xs \<noteq> []"
  shows "snd (hd (torch_sort xs)) < length xs \<and>
         xs ! snd (hd (torch_sort xs)) = fst (hd (torch_sort xs)) \<and>
         (\<forall>x\<in>set xs. x \<le> fst (hd (torch_sort xs)))"
proof -
  let ?srt = "torch_sort xs"
  obtain a rest where srt: "?srt = a # rest"
    using ne length_sorted[OF ok, of xs] by (cases ?srt) auto
  have "0 < length xs" using ne by simp
  from sorted_nth[OF ok this] have a: "snd a < length xs" "fst a = xs ! snd a"
    by (simp_all add: srt)
  have "x \<le> fst a" if "x \<in> set xs" for x
  proof -
    have "x \<in> set (map fst ?srt)" using that by (metis map_fst_sorted[OF ok] set_mset_mset)
    then obtain b where b: "b \<in> set ?srt" "x = fst b" by auto
    have "sorted_wrt (\<lambda>a b. fst b \<le> fst a) (a # rest)"
      using sort_ok_descending[OF ok, of xs] by (simp add: srt)
    then have "b = a \<or> fst b \<le> fst a" using b(1) by (auto simp: srt)
    then show ?thesis using b(2) by auto
  qed
  with a show ?thesis by (simp add: srt)
qed

lemma topk_last_mem:
  assumes "0 < k" and "k \<le> length xs"
  shows "last (topk xs k) \<in> set xs"
proof -
  have "length (topk xs k) = k" using assms by (simp add: topk_def)
  then have "topk xs k \<noteq> []" using assms(1) by (metis length_0_conv less_numeral_extra(3))
  then have "last (topk xs k) \<in> set (topk xs k)" by simp
  then have "last (topk xs k) \<in> set (rev (sort xs))"
    unfolding topk_def by (rule in_set_takeD)
  then show ?thesis by simp
qed

lemma top_k_stage_nth:
  assumes "i < length xs"
  shows "top_k_stage xs k NegInf ! i = xs ! i \<or>
         (top_k_stage xs k NegInf ! i = NegInf \<and> (\<exists>t\<in>set xs. xs ! i < t))"
proof (cases "0 < min k (int (length xs))")
  case True
  let ?k = "nat (min k (int (length xs)))"
  have "0 < ?k" "?k \<le> length xs" using True by auto
  then have "last (topk xs ?k) \<in> set xs" by (rule topk_last_mem)
  then show ?thesis using True assms by (auto simp: top_k_stage_map)
next
  case False
  then show ?thesis by (simp add: top_k_stage_map)
qed

lemma top_k_stage_nth_fv:
  assumes "i < length xs"
  shows "top_k_stage xs k fv ! i = xs ! i \<or> top_k_stage xs k fv ! i = fv"
  using assms by (auto simp: top_k_stage_map)

lemma filtering_keeps_maximum:
  assumes ok: "sort_ok torch_sort" and nonempty: "logits \<noteq> []"
  shows "\<exists>out i. top_k_top_p_filtering torch_sort logits top_k top_p NegInf = Inr out \<and>
           length out = length logits \<and> i < length logits \<and>
           logits ! i = Max (set logits) \<and> out ! i = logits ! i"
proof -
  let ?M = "Max (set logits)"
  let ?ys = "top_k_stage logits top_k NegInf"
  have len: "length ?ys = length logits" by (rule length_top_k_stage)
  then have ne: "?ys \<noteq> []" using nonempty by auto
  have M_ge: "x \<le> ?M" if "x \<in> set logits" for x using that by simp
  have M_in: "?M \<in> set logits" using nonempty by simp
  have ys_le: "?ys ! i \<le> logits ! i" if "i < length logits" for i
    using top_k_stage_nth[OF that, of top_k] by auto
  have ys_M: "?ys ! i = logits ! i" if "i < length logits" "logits ! i = ?M" for i
    using top_k_stage_nth[OF that(1), of top_k] that(2) M_ge by (auto simp: not_less[symmetric])
  obtain rem where rem: "top_p_stage torch_sort ?ys top_p NegInf = Inr (index_fill ?ys rem NegInf)"
    "0 < top_p \<longrightarrow> snd (hd (torch_sort ?ys)) \<notin> set rem" "\<not> 0 < top_p \<longrightarrow> rem = []"
    using top_p_stage_nonempty[OF ok ne, of top_p NegInf] by auto
  let ?out = "index_fill ?ys rem NegInf"
  have out: "top_k_top_p_filtering torch_sort logits top_k top_p NegInf = Inr ?out"
    by (simp add: top_k_top_p_filtering_def rem(1))
  have lout: "length ?out = length logits" by (simp add: length_index_fill len)
  obtain i0 where i0: "i0 < length logits" "logits ! i0 = ?M"
    using M_in by (metis in_set_conv_nth)
  show ?thesis
  proof (cases "0 < top_p")
    case False
    then have "?out ! i0 = logits ! i0"
      using rem(3) i0 ys_M[of i0] by (simp add: index_fill_nth len)
    with out lout i0 show ?thesis by blast
  next
    case True
    let ?i = "snd (hd (torch_sort ?ys))"
    from hd_sorted_max[OF ok ne] have h: "?i < length logits"
      "?ys ! ?i = fst (hd (torch_sort ?ys))" "\<forall>x\<in>set ?ys. x \<le> ?ys ! ?i"
      by (simp_all add: len)
    have "?ys ! i0 \<in> set ?ys" using i0(1) len by simp
    then have "?M \<le> ?ys ! ?i" using h(3) ys_M[OF i0] i0(2) by auto
    moreover have "?ys ! ?i \<le> logits ! ?i" using ys_le[OF h(1)] .
    moreover have "logits ! ?i \<le> ?M" using h(1) M_ge by simp
    ultimately have eq: "logits ! ?i = ?M" "?ys ! ?i = logits ! ?i" by auto
    have "?out ! ?i = ?ys ! ?i"
      using rem(2) True h(1) by (simp add: index_fill_nth len)
    with eq out lout h(1) show ?thesis by metis
  qed
qed

lemma filtering_nonempty:
  assumes ok: "sort_ok torch_sort" and nonempty: "logits \<noteq> []"
  shows "\<exists>out. top_k_top_p_filtering torch_sort logits k p fv = Inr out"
proof -
  have "top_k_stage logits k fv \<noteq> []"
    using nonempty length_top_k_stage[of logits k fv] by auto
  from top_p_stage_nonempty[OF ok this, of p fv] show ?thesis
    by (auto simp: top_k_top_p_filtering_def)
qed

text \<open>
  C10. For every non-empty logit vector, every \<open>top_k\<close> and every \<open>top_p\<close> (so in
  particular \<open>top_k \<ge> 0\<close> and \<open>top_p\<close> in \<open>[0, 1]\<close>), the filter with its default filter
  value \<open>-inf\<close> succeeds and returns unchanged at least one entry that holds the maximum
  logit, whatever order \<^verbatim>\<open>torch.sort\<close> gives equal values.
\<close>

theorem max_survives:
  assumes "sort_ok torch_sort" and "logits \<noteq> []"
  shows "\<exists>out i. top_k_top_p_filtering torch_sort logits top_k top_p NegInf = Inr out \<and>
           length out = length logits \<and> i < length logits \<and>
           logits ! i = Max (set logits) \<and> out ! i = logits ! i"
  using assms by (rule filtering_keeps_maximum)

theorem max_survives_witness:
  "\<exists>out i. top_k_top_p_filtering sort_desc [Fin 1, Fin 3, Fin 2] 2 (1 / 2) NegInf = Inr out \<and>
     length out = length [Fin 1, Fin 3, Fin 2] \<and> i < length [Fin 1, Fin 3, Fin 2] \<and>
     [Fin 1, Fin 3, Fin 2] ! i = Max (set [Fin 1, Fin 3, Fin 2]) \<and>
     out ! i = [Fin 1, Fin 3, Fin 2] ! i"
proof -
  have "[Fin 1, Fin 3, Fin 2] \<noteq> []" by simp
  from max_survives[OF sort_ok_sort_desc this, of 2 "1 / 2"] show ?thesis .
qed

subsection \<open>Top-p removal of an entry without ties\<close>

text \<open>
  An entry whose logit no other entry shares has the same entries before it in every
  descending order: those with a strictly larger logit. Whether top-p removes it then
  depends on the values alone.
\<close>

lemma sorted_take_filter_untied:
  fixes l :: "(logit \<times> nat) list"
  assumes desc: "sorted_wrt (\<lambda>a b. fst b \<le> fst a) l" and j: "j < length l"
    and untied: "\<forall>k<length l. k \<noteq> j \<longrightarrow> fst (l ! k) \<noteq> fst (l ! j)"
  shows "filter (\<lambda>a. fst (l ! j) < fst a) l = take j l"
proof -
  have split: "l = take j l @ (l ! j) # drop (Suc j) l"
    using j by (rule id_take_nth_drop)
  have before: "fst (l ! j) < fst a" if "a \<in> set (take j l)" for a
  proof -
    from that obtain k where k: "k < j" "a = l ! k"
      using j by (auto simp: in_set_conv_nth)
    then have "fst (l ! j) \<le> fst (l ! k)"
      using sorted_wrt_nth_less[OF desc, of k j] j by simp
    moreover have "fst (l ! k) \<noteq> fst (l ! j)" using untied k j by simp
    ultimately show ?thesis using k by simp
  qed
  have after: "\<not> fst (l ! j) < fst c" if "c \<in> set (drop (Suc j) l)" for c
  proof -
    from that obtain m where m: "m < length l - Suc j" "c = l ! (Suc j + m)"
      by (auto simp: in_set_conv_nth)
    define k where "k = Suc j + m"
    have k: "j < k" "k < length l" "c = l ! k"
      using m by (simp_all add: k_def)
    then have "fst (l ! k) \<le> fst (l ! j)"
      using sorted_wrt_nth_less[OF desc, of j k] by simp
    then show ?thesis using k by simp
  qed
  have "filter (\<lambda>a. fst (l ! j) < fst a) (take j l @ (l ! j) # drop (Suc j) l) = take j l"
    using before after by (simp add: filter_id_conv filter_empty_conv)
  with split show ?thesis by simp
qed

lemma mass_above_sorted:
  assumes ok: "sort_ok torch_sort" and i: "i < length xs"
    and untied: "\<forall>k<length xs. k \<noteq> i \<longrightarrow> xs ! k \<noteq> xs ! i"
    and j: "j < length xs" "torch_sort xs ! j = (xs ! i, i)"
  shows "sum_list (map (expl \<circ> fst) (take j (torch_sort xs))) =
         sum_list (map expl (filter (\<lambda>x. xs ! i < x) xs))"
proof -
  let ?l = "torch_sort xs"
  have n: "length ?l = length xs" using ok by (rule length_sorted)
  have d: "distinct (map snd ?l)" using ok by (rule distinct_map_snd_sorted)
  have "fst (?l ! k) \<noteq> fst (?l ! j)" if k: "k < length ?l" "k \<noteq> j" for k
  proof -
    have "map snd ?l ! k \<noteq> map snd ?l ! j"
      using nth_eq_iff_index_eq[OF d, of k j] k j(1) n by simp
    then have "snd (?l ! k) \<noteq> i" using k j n by simp
    moreover have "snd (?l ! k) < length xs" "fst (?l ! k) = xs ! snd (?l ! k)"
      using sorted_nth[OF ok, of k xs] k n by simp_all
    ultimately show ?thesis using untied j(2) by simp
  qed
  then have "filter (\<lambda>a. fst (?l ! j) < fst a) ?l = take j ?l"
    using sorted_take_filter_untied[OF sort_ok_descending[OF ok], of j xs] j(1) n by simp
  then have "sum_list (map (expl \<circ> fst) (take j ?l)) =
      sum_list (map expl (filter (\<lambda>x. xs ! i < x) (map fst ?l)))"
    using j(2) by (simp add: filter_map comp_def)
  also have "\<dots> = sum_list (map expl (filter (\<lambda>x. xs ! i < x) xs))"
  proof (rule sum_list_perm)
    show "mset (filter (\<lambda>x. xs ! i < x) (map fst ?l)) = mset (filter (\<lambda>x. xs ! i < x) xs)"
      by (simp only: mset_filter map_fst_sorted[OF ok])
  qed
  finally show ?thesis .
qed

lemma top_p_removed_untied:
  assumes ok: "sort_ok torch_sort" and fin: "\<exists>x\<in>set xs. x \<noteq> NegInf" and p: "0 < p"
    and i: "i < length xs" and untied: "\<forall>k<length xs. k \<noteq> i \<longrightarrow> xs ! k \<noteq> xs ! i"
  shows "\<exists>rem. top_p_remove torch_sort xs p = Inr rem \<and>
           (i \<in> set rem \<longleftrightarrow>
              p < sum_list (map expl (filter (\<lambda>x. xs ! i < x) xs)) / sum_list (map expl xs))"
proof -
  let ?srt = "torch_sort xs"
  let ?Z = "sum_list (map expl xs)"
  define g where "g = (\<lambda>j. p < sum_list (map (expl \<circ> fst) (take j ?srt)) / ?Z)"
  define rem where "rem = map snd (filter fst (zip (map g [0..<length xs]) (map snd ?srt)))"
  have n: "length ?srt = length xs" using ok by (rule length_sorted)
  have rm: "top_p_remove torch_sort xs p = Inr rem"
    using top_p_remove_finite[OF ok fin p] by (simp add: rem_def g_def)
  have zipform: "zip (map g [0..<length xs]) (map snd ?srt) =
      map (\<lambda>j. (g j, snd (?srt ! j))) [0..<length xs]"
    by (rule nth_equalityI) (simp_all add: n)
  have set_rem: "set rem = {snd (?srt ! j) | j. j < length xs \<and> g j}"
    unfolding rem_def zipform by (auto simp: filter_map comp_def image_iff)
  obtain j where j: "j < length xs" "?srt ! j = (xs ! i, i)"
    using sorted_position[OF ok i] by blast
  have gj: "g j = (p < sum_list (map expl (filter (\<lambda>x. xs ! i < x) xs)) / ?Z)"
    using mass_above_sorted[OF ok i untied j] by (simp add: g_def)
  have "i \<in> set rem \<longleftrightarrow> g j"
  proof
    assume "i \<in> set rem"
    then obtain j' where j': "j' < length xs" "g j'" "snd (?srt ! j') = i"
      using set_rem by auto
    have "map snd ?srt ! j' = map snd ?srt ! j" using j j' n by simp
    then have "j' = j"
      using nth_eq_iff_index_eq[OF distinct_map_snd_sorted[OF ok], of j' xs j] j j' n by simp
    with j' show "g j" by simp
  next
    assume "g j"
    with j show "i \<in> set rem" using set_rem by force
  qed
  with rm gj show ?thesis by blast
qed

lemma top_p_after_lowering:
  fixes g :: "logit \<Rightarrow> logit"
  assumes ok: "sort_ok torch_sort"
    and gdef: "\<And>x. g x = (if x < t then NegInf else x)"
    and both: "top_p_stage torch_sort (map g xs) p NegInf = Inr both"
    and alone: "top_p_stage torch_sort xs p NegInf = Inr alone"
    and i: "i < length xs" and surv: "both ! i \<noteq> NegInf"
    and untied: "\<forall>k<length xs. k \<noteq> i \<longrightarrow> xs ! k \<noteq> xs ! i"
  shows "alone ! i = xs ! i \<and> both ! i = xs ! i"
proof (cases "0 < p")
  case False
  then have "both = map g xs" "alone = xs" using both alone by (simp_all add: top_p_stage_def)
  then show ?thesis using surv i by (auto simp: gdef split: if_splits)
next
  case True
  let ?ys = "map g xs"
  let ?A = "\<lambda>zs. sum_list (map expl (filter (\<lambda>x. xs ! i < x) zs))"
  let ?Z = "\<lambda>zs. sum_list (map expl zs)"
  obtain rem2 where rem2: "top_p_remove torch_sort ?ys p = Inr rem2" "both = index_fill ?ys rem2 NegInf"
    using both True by (auto simp: top_p_stage_def split: sum.splits)
  obtain rem1 where rem1: "top_p_remove torch_sort xs p = Inr rem1" "alone = index_fill xs rem1 NegInf"
    using alone True by (auto simp: top_p_stage_def split: sum.splits)
  have bi: "both ! i = (if i \<in> set rem2 then NegInf else ?ys ! i)"
    using i by (simp add: rem2(2) index_fill_nth)
  then have notin2: "i \<notin> set rem2" and yi: "?ys ! i \<noteq> NegInf"
    using surv by (auto split: if_splits)
  have gi: "g (xs ! i) = xs ! i" "\<not> xs ! i < t" "xs ! i \<noteq> NegInf"
    using yi i gdef[of "xs ! i"] by (auto split: if_splits)
  have ysi: "?ys ! i = xs ! i" using i gi(1) by simp
  have fin_ys: "\<exists>x\<in>set ?ys. x \<noteq> NegInf" using yi i by (metis length_map nth_mem)
  have fin_xs: "\<exists>x\<in>set xs. x \<noteq> NegInf" using gi(3) i by (metis nth_mem)
  have untied_ys: "\<forall>k<length ?ys. k \<noteq> i \<longrightarrow> ?ys ! k \<noteq> ?ys ! i"
    using untied gi(3) by (auto simp: ysi gdef)
  have c2: "\<not> p < ?A ?ys / ?Z ?ys"
    using top_p_removed_untied[OF ok fin_ys True _ untied_ys] rem2(1) notin2 i
    by (auto simp: ysi)
  have c1: "i \<in> set rem1 \<longleftrightarrow> p < ?A xs / ?Z xs"
    using top_p_removed_untied[OF ok fin_xs True i untied] rem1(1) by auto
  have Aeq: "?A ?ys = ?A xs"
  proof -
    define v where "v = xs ! i"
    have "NegInf < v" using gi(3) by (cases v) (auto simp: less_logit_def v_def)
    then have keep: "(v < g x) = (v < x)" "v < x \<Longrightarrow> g x = x" for x
      using gi(2) by (auto simp: gdef v_def)
    have "filter (\<lambda>x. v < x) (map g zs) = filter (\<lambda>x. v < x) zs" for zs
      by (induction zs) (auto simp: keep)
    then show ?thesis by (simp add: v_def)
  qed
  have Zle: "?Z ?ys \<le> ?Z xs"
  proof -
    have "expl (g x) \<le> expl x" for x using expl_nonneg[of x] by (simp add: gdef)
    then show ?thesis by (simp add: comp_def sum_list_mono)
  qed
  have Zpos: "0 < ?Z ?ys" using fin_ys by (rule sum_expl_pos)
  have Apos: "0 \<le> ?A xs" by (rule sum_list_nonneg) (auto simp: expl_nonneg)
  have "?A xs / ?Z xs \<le> ?A xs / ?Z ?ys"
    using Zle Zpos Apos by (intro divide_left_mono) (auto simp: mult_pos_pos)
  with c2 Aeq have "\<not> p < ?A xs / ?Z xs" by simp
  with c1 have "i \<notin> set rem1" by simp
  then have "alone ! i = xs ! i" using i by (simp add: rem1(2) index_fill_nth)
  moreover have "both ! i = xs ! i" using bi notin2 ysi by simp
  ultimately show ?thesis by simp
qed

subsection \<open>Top-k followed by top-p\<close>

lemma quarter_bounds:
  fixes x :: real
  assumes "0 < x" and "x < 1"
  shows "1 / 4 < 1 / (2 + x)" and "1 / 4 < 2 / (2 + x)"
  using assms by (simp_all add: field_simps)

text \<open>
  C8 as stated: the entries that survive top-k followed by top-p are a subset of those
  that survive top-p alone. The two runs sort different vectors, and \<^verbatim>\<open>torch.sort\<close> may
  rank equal logits differently in each. For the logits \<open>[0, 0, -1]\<close> with \<open>k = 2\<close> and
  \<open>p = 1/4\<close>, top-p alone sorts \<open>[0, 0, -1]\<close>, the composed filter sorts \<open>[0, 0, -inf]\<close>,
  and in both runs only the first-ranked entry survives. Under \<open>unstable_sort\<close>, which
  meets \<open>sort_ok\<close>, that is index 0 for top-p alone and index 1 for the composed filter.
\<close>

theorem top_k_then_top_p_tie_counterexample:
  "sort_ok unstable_sort \<and>
   top_k_top_p_filtering unstable_sort [Fin 0, Fin 0, Fin (- 1)] 2 (1 / 4) NegInf
     = Inr [NegInf, Fin 0, NegInf] \<and>
   top_k_top_p_filtering unstable_sort [Fin 0, Fin 0, Fin (- 1)] 0 (1 / 4) NegInf
     = Inr [Fin 0, NegInf, NegInf]"
proof -
  have e: "0 < exp (- 1 :: real)" "exp (- 1 :: real) < 1" by simp_all
  have c: "1 / 4 < 1 / (2 + exp (- 1 :: real))" "1 / 4 < 2 / (2 + exp (- 1 :: real))"
    using quarter_bounds[OF e] .
  have both: "top_k_top_p_filtering unstable_sort [Fin 0, Fin 0, Fin (- 1)] 2 (1 / 4) NegInf
     = Inr [NegInf, Fin 0, NegInf]"
    by (simp add: top_k_top_p_filtering_def top_k_stage_def top_p_stage_def topk_def
      masked_fill_def less_logit_def softmax_def top_p_remove_def unstable_sort_def
      sort_desc_def sort_desc_last_def above_threshold_def cumsum_def shift_right_def
      index_fill_def)
  have alone: "top_k_top_p_filtering unstable_sort [Fin 0, Fin 0, Fin (- 1)] 0 (1 / 4) NegInf
     = Inr [Fin 0, NegInf, NegInf]"
    using c
    by (simp add: top_k_top_p_filtering_def top_k_stage_def top_p_stage_def topk_def
      masked_fill_def less_logit_def softmax_def top_p_remove_def unstable_sort_def
      sort_desc_def sort_desc_last_def above_threshold_def cumsum_def shift_right_def
      index_fill_def)
  show ?thesis using sort_ok_unstable_sort both alone by simp
qed

text \<open>
  C8 as amended: with the default filter value \<open>-inf\<close>, for every logit vector, every \<open>k\<close>
  and every \<open>p\<close> (in particular \<open>p\<close> in \<open>(0, 1)\<close>) and every order that \<^verbatim>\<open>torch.sort\<close>
  gives equal values: both filters return on a non-empty vector, and every entry that
  survives top-k followed by top-p and whose logit no other entry shares also survives
  top-p alone. For a vector of pairwise distinct logits the survivors of the composed
  filter are hence a subset of those of top-p alone. Between entries of equal logit the
  inclusion depends on the order of the sort.
\<close>

theorem top_k_then_top_p_untied:
  assumes "sort_ok torch_sort"
  shows "(logits \<noteq> [] \<longrightarrow>
            (\<exists>both alone. top_k_top_p_filtering torch_sort logits k p NegInf = Inr both \<and>
                           top_k_top_p_filtering torch_sort logits 0 p NegInf = Inr alone)) \<and>
         (\<forall>both alone.
            top_k_top_p_filtering torch_sort logits k p NegInf = Inr both \<longrightarrow>
            top_k_top_p_filtering torch_sort logits 0 p NegInf = Inr alone \<longrightarrow>
            {i. i < length logits \<and> both ! i \<noteq> NegInf \<and>
                (\<forall>j<length logits. j \<noteq> i \<longrightarrow> logits ! j \<noteq> logits ! i)}
              \<subseteq> {i. i < length logits \<and> alone ! i \<noteq> NegInf} \<and>
            (distinct logits \<longrightarrow>
               {i. i < length logits \<and> both ! i \<noteq> NegInf}
                 \<subseteq> {i. i < length logits \<and> alone ! i \<noteq> NegInf}))"
proof (rule conjI)
  show "logits \<noteq> [] \<longrightarrow>
          (\<exists>both alone. top_k_top_p_filtering torch_sort logits k p NegInf = Inr both \<and>
                         top_k_top_p_filtering torch_sort logits 0 p NegInf = Inr alone)"
    using filtering_nonempty[OF assms, of logits k p NegInf]
      filtering_nonempty[OF assms, of logits 0 p NegInf] by auto
next
  have main: "alone ! i \<noteq> NegInf"
    if both: "top_k_top_p_filtering torch_sort logits k p NegInf = Inr both"
      and alone: "top_k_top_p_filtering torch_sort logits 0 p NegInf = Inr alone"
      and i: "i < length logits" "both ! i \<noteq> NegInf"
      and untied: "\<forall>j<length logits. j \<noteq> i \<longrightarrow> logits ! j \<noteq> logits ! i"
    for both alone i
  proof -
    have alone': "top_p_stage torch_sort logits p NegInf = Inr alone"
      using alone by (simp add: top_k_top_p_filtering_def top_k_stage_def)
    show ?thesis
    proof (cases "0 < min k (int (length logits))")
      case False
      then have "top_k_stage logits k NegInf = logits" by (simp add: top_k_stage_map)
      with both alone' have "both = alone" by (simp add: top_k_top_p_filtering_def)
      with i(2) show ?thesis by simp
    next
      case True
      define t where "t = last (topk logits (nat (min k (int (length logits)))))"
      define g where "g = (\<lambda>x. if x < t then NegInf else x)"
      have "top_k_stage logits k NegInf = map g logits"
        using True by (simp add: top_k_stage_map g_def t_def)
      with both have both': "top_p_stage torch_sort (map g logits) p NegInf = Inr both"
        by (simp add: top_k_top_p_filtering_def)
      show ?thesis
        using top_p_after_lowering[of torch_sort g t logits p both alone i,
            OF assms _ both' alone' i untied] i(2)
        by (simp add: g_def)
    qed
  qed
  have untied_distinct: "\<forall>j<length logits. j \<noteq> i \<longrightarrow> logits ! j \<noteq> logits ! i"
    if "distinct logits" "i < length logits" for i
    using that by (simp add: nth_eq_iff_index_eq)
  show "\<forall>both alone.
            top_k_top_p_filtering torch_sort logits k p NegInf = Inr both \<longrightarrow>
            top_k_top_p_filtering torch_sort logits 0 p NegInf = Inr alone \<longrightarrow>
            {i. i < length logits \<and> both ! i \<noteq> NegInf \<and>
                (\<forall>j<length logits. j \<noteq> i \<longrightarrow> logits ! j \<noteq> logits ! i)}
              \<subseteq> {i. i < length logits \<and> alone ! i \<noteq> NegInf} \<and>
            (distinct logits \<longrightarrow>
               {i. i < length logits \<and> both ! i \<noteq> NegInf}
                 \<subseteq> {i. i < length logits \<and> alone ! i \<noteq> NegInf})"
  proof (intro allI impI conjI subsetI)
    fix both alone i
    assume b: "top_k_top_p_filtering torch_sort logits k p NegInf = Inr both"
      and a: "top_k_top_p_filtering torch_sort logits 0 p NegInf = Inr alone"
      and "i \<in> {i. i < length logits \<and> both ! i \<noteq> NegInf \<and>
                (\<forall>j<length logits. j \<noteq> i \<longrightarrow> logits ! j \<noteq> logits ! i)}"
    then show "i \<in> {i. i < length logits \<and> alone ! i \<noteq> NegInf}"
      using main[OF b a] by simp
  next
    fix both alone i
    assume b: "top_k_top_p_filtering torch_sort logits k p NegInf = Inr both"
      and a: "top_k_top_p_filtering torch_sort logits 0 p NegInf = Inr alone"
      and d: "distinct logits"
      and "i \<in> {i. i < length logits \<and> both ! i \<noteq> NegInf}"
    then show "i \<in> {i. i < length logits \<and> alone ! i \<noteq> NegInf}"
      using main[OF b a] untied_distinct[OF d] by simp
  qed
qed

theorem top_k_then_top_p_untied_witness:
  "\<exists>both alone. top_k_top_p_filtering sort_desc [Fin 1, Fin 2, Fin 0] 2 (1 / 2) NegInf = Inr both \<and>
      top_k_top_p_filtering sort_desc [Fin 1, Fin 2, Fin 0] 0 (1 / 2) NegInf = Inr alone \<and>
      {i. i < 3 \<and> both ! i \<noteq> NegInf} \<subseteq> {i. i < 3 \<and> alone ! i \<noteq> NegInf}"
proof -
  have d: "distinct [Fin 1, Fin 2, Fin 0]" by simp
  from top_k_then_top_p_untied[OF sort_ok_sort_desc, of "[Fin 1, Fin 2, Fin 0]" 2 "1 / 2"] d
  show ?thesis by (auto simp: numeral_3_eq_3)
qed

section \<open>Properties of generate\<close>

subsection \<open>Context window\<close>

lemma window_at_least_2:
  "2 \<le> n_ctx \<Longrightarrow> window n_ctx generated = drop (length generated - nat (n_ctx - 1)) generated"
  by (auto simp: window_def Let_def max_def intro!: arg_cong[where f="\<lambda>n. drop n generated"])

lemma window_length_at_least_2:
  "2 \<le> n_ctx \<Longrightarrow> int (length (window n_ctx generated)) \<le> n_ctx - 1"
  by (auto simp: window_def Let_def)

text \<open>
  C4. The context passed to the model is meant to be at most \<open>n_ctx - 1\<close> tokens long for
  every positive \<open>n_ctx\<close>. At \<open>n_ctx = 1\<close> the slice start \<open>-(n_ctx - 1)\<close> is \<open>0\<close>, which
  Python reads from the front: the whole sequence is passed, here two tokens where the
  bound is zero.
\<close>

theorem window_n_ctx_1_whole_sequence:
  "window 1 [10, 11] = [10, 11] \<and> \<not> int (length (window 1 [10, 11])) \<le> 1 - 1"
  by (simp add: window_def)

subsection \<open>Repetition penalty\<close>

lemma scatter_length:
  "length (foldl (\<lambda>acc (i, v). acc[i := v]) xs ps) = length xs"
  by (induction ps arbitrary: xs) (auto split: prod.splits)

lemma scatter_nth:
  "j < length xs \<Longrightarrow>
   foldl (\<lambda>acc (i, v). acc[i := v]) xs (map (\<lambda>i. (i, f i)) ids) ! j =
     (if j \<in> set ids then f j else xs ! j)"
proof (induction ids arbitrary: xs rule: rev_induct)
  case Nil
  then show ?case by simp
next
  case (snoc a ids)
  then show ?case
    by (cases "a = j") (auto simp: scatter_length nth_list_update)
qed

lemma zip_map_self: "zip ids (map g ids) = map (\<lambda>i. (i, g i)) ids"
  by (induction ids) auto

lemma penalise_result:
  assumes "\<forall>i\<in>set ids. i < length scores" and "ids = [] \<or> p \<noteq> 0"
  shows "\<exists>out. penalise scores ids p = Inr out \<and> length out = length scores \<and>
           (\<forall>j<length scores. out ! j = (if j \<in> set ids then scores ! j / p else scores ! j))"
  using assms
  by (auto simp: penalise_def list_ex_iff Let_def zip_map_self scatter_length scatter_nth comp_def)



subsection \<open>Absence of validation\<close>




subsection \<open>Sequence growth\<close>

lemma filtering_entries:
  assumes "top_k_top_p_filtering torch_sort xs k p fv = Inr out"
  shows "length out = length xs \<and> (\<forall>i<length xs. out ! i = xs ! i \<or> out ! i = fv)"
proof -
  let ?ys = "top_k_stage xs k fv"
  have len: "length ?ys = length xs" by (rule length_top_k_stage)
  have ys: "?ys ! i = xs ! i \<or> ?ys ! i = fv" if "i < length xs" for i
    using that by (rule top_k_stage_nth_fv)
  obtain rem where out: "out = index_fill ?ys rem fv"
  proof (cases "0 < p")
    case True
    then show ?thesis
      using assms that by (auto simp: top_k_top_p_filtering_def top_p_stage_def split: sum.splits)
  next
    case False
    then have "out = index_fill ?ys [] fv"
      using assms by (simp add: top_k_top_p_filtering_def top_p_stage_def index_fill_def)
    then show ?thesis by (rule that)
  qed
  show ?thesis
    using ys by (auto simp: out length_index_fill len index_fill_nth)
qed

lemma sampler_ok_pick_first: "sampler_ok pick_first"
proof -
  have "length (takeWhile (\<lambda>q. \<not> 0 < q) probs) < length probs \<and>
        0 < probs ! length (takeWhile (\<lambda>q. \<not> 0 < q) probs)"
    if "list_ex (\<lambda>q. 0 < q) probs" for probs :: "real list"
  proof -
    have "takeWhile (\<lambda>q. \<not> 0 < q) probs \<noteq> probs"
      using that by (auto simp: list_ex_iff takeWhile_eq_all_conv)
    then have l: "length (takeWhile (\<lambda>q. \<not> 0 < q) probs) < length probs"
      using length_takeWhile_le[of "\<lambda>q. \<not> 0 < q" probs]
      by (metis le_neq_implies_less takeWhile_eq_take take_all_iff order_refl)
    from nth_length_takeWhile[OF l] l show ?thesis by simp
  qed
  then show ?thesis by (simp add: sampler_ok_def pick_first_def)
qed

lemma step_appends:
  assumes "step model multinomial torch_sort n_ctx unk temperature top_k top_p rp g generated = Inr (generated', g')"
  shows "\<exists>t. generated' = generated @ [t]"
  using assms by (auto simp: step_def split: sum.splits option.splits prod.splits)

lemma loop_growth:
  assumes "generate_loop model multinomial torch_sort n_ctx unk temperature top_k top_p rp n g generated = Inr out"
  shows "length out = length generated + n \<and> take (length generated) out = generated"
  using assms
proof (induction n arbitrary: g generated)
  case 0
  then show ?case by simp
next
  case (Suc n)
  from Suc.prems obtain generated' g' where
    s: "step model multinomial torch_sort n_ctx unk temperature top_k top_p rp g generated = Inr (generated', g')"
    and r: "generate_loop model multinomial torch_sort n_ctx unk temperature top_k top_p rp n g' generated' = Inr out"
    by (auto split: sum.splits)
  from step_appends[OF s] obtain t where t: "generated' = generated @ [t]" by blast
  from Suc.IH[OF r] have "length out = length generated' + n" "take (length generated') out = generated'"
    by simp_all
  then have "length out = length generated + Suc n" "take (length generated) (take (length generated') out) = generated"
    using t by simp_all
  then show ?case using t by (simp add: min_def)
qed

lemma softmax_SomeD:
  assumes "softmax xs = Some probs" and "xs \<noteq> []"
  shows "probs = map (\<lambda>x. expl x / sum_list (map expl xs)) xs \<and> (\<exists>x\<in>set xs. x \<noteq> NegInf)"
  using assms by (auto simp: softmax_def list_all_iff split: if_splits)

lemma softmax_positive:
  assumes "softmax xs = Some probs" and "xs \<noteq> []"
  shows "length probs = length xs \<and> list_ex (\<lambda>q. 0 < q) probs \<and>
         (\<forall>i<length xs. xs ! i = NegInf \<longrightarrow> probs ! i = 0)"
proof -
  from softmax_SomeD[OF assms] have pr: "probs = map (\<lambda>x. expl x / sum_list (map expl xs)) xs"
    and fin: "\<exists>x\<in>set xs. x \<noteq> NegInf" by simp_all
  have Z: "0 < sum_list (map expl xs)" using fin by (rule sum_expl_pos)
  from fin obtain x where x: "x \<in> set xs" "x \<noteq> NegInf" by blast
  then have "0 < expl x / sum_list (map expl xs)" using Z by (simp add: expl_pos_iff)
  then have "list_ex (\<lambda>q. 0 < q) probs" using x(1) by (auto simp: pr list_ex_iff)
  then show ?thesis by (simp add: pr)
qed

lemma step_total:
  assumes ok: "sampler_ok multinomial" and oks: "sort_ok torch_sort"
    and lm: "\<forall>ctx. \<exists>scores. model ctx = Inr scores \<and> length scores = V"
    and V: "2 \<le> V" and unk: "unk < V"
    and ids: "\<forall>t\<in>set generated. t < V"
    and nz: "temperature \<noteq> 0" "rp \<noteq> 0"
  shows "\<exists>t g'. step model multinomial torch_sort n_ctx unk temperature top_k top_p rp g generated
                   = Inr (generated @ [t], g') \<and> t < V"
proof -
  obtain scores where sc: "model (window n_ctx generated) = Inr scores" "length scores = V"
    using lm by blast
  obtain penalised where pe: "penalise scores generated rp = Inr penalised" "length penalised = V"
    using penalise_result[of generated scores rp] ids nz(2) sc(2) by auto
  define scaled where "scaled = map (\<lambda>v. v / temperature) penalised"
  have scl: "scale penalised temperature = Inr scaled" "length scaled = V"
    using nz(1) pe(2) by (simp_all add: scale_def scaled_def)
  define suppressed where "suppressed = (map Fin scaled)[unk := NegInf]"
  have sup: "suppress (map Fin scaled) unk = Inr suppressed" "length suppressed = V"
    using unk scl(2) by (simp_all add: suppress_def suppressed_def)
  define j where "j = (if unk = 0 then 1 else 0 :: nat)"
  have j: "j < V" "j \<noteq> unk" using V by (auto simp: j_def)
  then have supj: "suppressed ! j \<noteq> NegInf"
    using scl(2) by (simp add: suppressed_def)
  have ne: "suppressed \<noteq> []" using sup(2) V by auto
  obtain filtered i where fi: "top_k_top_p_filtering torch_sort suppressed top_k top_p NegInf = Inr filtered"
    "length filtered = V" "i < V" "suppressed ! i = Max (set suppressed)" "filtered ! i = suppressed ! i"
    using filtering_keeps_maximum[OF oks ne, of top_k top_p] sup(2) by auto
  have "suppressed ! j \<le> Max (set suppressed)"
    using j(1) sup(2) by simp
  then have "Max (set suppressed) \<noteq> NegInf"
    using supj by (cases "suppressed ! j") auto
  then have "filtered ! i \<noteq> NegInf" using fi(4,5) by simp
  then have fin: "\<exists>x\<in>set filtered. x \<noteq> NegInf"
    using fi(2,3) by (metis nth_mem)
  then obtain probs where sm: "softmax filtered = Some probs"
    using softmax_finite by blast
  have fne: "filtered \<noteq> []" using fin by auto
  from softmax_positive[OF sm fne] have pr: "length probs = V" "list_ex (\<lambda>q. 0 < q) probs"
    using fi(2) by simp_all
  obtain t g' where tg: "multinomial g probs = (t, g')" by (cases "multinomial g probs")
  have "fst (multinomial g probs) < length probs"
    using ok pr(2) unfolding sampler_ok_def by blast
  then have "t < V" using pr(1) tg by simp
  moreover have "step model multinomial torch_sort n_ctx unk temperature top_k top_p rp g generated
                   = Inr (generated @ [t], g')"
    by (simp add: step_def sc(1) pe(1) scl(1) sup(1) fi(1) sm tg)
  ultimately show ?thesis by blast
qed

lemma loop_total:
  assumes ok: "sampler_ok multinomial" and oks: "sort_ok torch_sort"
    and lm: "\<forall>ctx. \<exists>scores. model ctx = Inr scores \<and> length scores = V"
    and V: "2 \<le> V" and unk: "unk < V"
    and nz: "temperature \<noteq> 0" "rp \<noteq> 0"
    and ids: "\<forall>t\<in>set generated. t < V"
  shows "\<exists>out. generate_loop model multinomial torch_sort n_ctx unk temperature top_k top_p rp n g generated = Inr out"
  using ids
proof (induction n arbitrary: g generated)
  case 0
  then show ?case by simp
next
  case (Suc n)
  from step_total[OF ok oks lm V unk Suc.prems nz, of n_ctx top_k top_p g]
  obtain t g' where s: "step model multinomial torch_sort n_ctx unk temperature top_k top_p rp g generated
                   = Inr (generated @ [t], g')" and t: "t < V" by blast
  have "\<forall>t\<in>set (generated @ [t]). t < V" using Suc.prems t by auto
  from Suc.IH[OF this, of g'] obtain out where
    "generate_loop model multinomial torch_sort n_ctx unk temperature top_k top_p rp n g' (generated @ [t]) = Inr out"
    by blast
  with s show ?case by simp
qed

text \<open>
  C1. Whenever \<^verbatim>\<open>generate\<close> returns for a prefix of length \<open>m\<close> and \<open>length = L \<ge> 0\<close>, the
  result has length \<open>m + L\<close> and its first \<open>m\<close> elements are the prefix: each pass through
  the loop appends one token and nothing ends the loop early. And it does return when
  the collaborators behave: the sampler meets \<open>sampler_ok\<close>, the sort meets \<open>sort_ok\<close>,
  the model answers every context with \<open>V \<ge> 2\<close> finite scores, the unknown id and the prefix tokens are below
  \<open>V\<close>, and temperature and penalty (\<open>rp\<close>) are not zero.
\<close>

theorem generate_growth:
  "(\<forall>out. generate model multinomial torch_sort g context len n_ctx unk temperature top_k top_p rp = Inr out
        \<longrightarrow> 0 \<le> len
        \<longrightarrow> int (length out) = int (length context) + len \<and> take (length context) out = context) \<and>
   (sampler_ok multinomial \<and> sort_ok torch_sort \<and>
    (\<forall>ctx. \<exists>scores. model ctx = Inr scores \<and> length scores = V) \<and>
    2 \<le> V \<and> unk < V \<and> (\<forall>t\<in>set context. t < V) \<and> temperature \<noteq> 0 \<and> rp \<noteq> 0
      \<longrightarrow> (\<exists>out. generate model multinomial torch_sort g context len n_ctx unk temperature top_k top_p rp
                   = Inr out))"
proof (rule conjI)
  show "\<forall>out. generate model multinomial torch_sort g context len n_ctx unk temperature top_k top_p rp = Inr out
        \<longrightarrow> 0 \<le> len
        \<longrightarrow> int (length out) = int (length context) + len \<and> take (length context) out = context"
    using loop_growth[of model multinomial torch_sort n_ctx unk temperature top_k top_p rp "nat len" g "context"]
    by (simp add: generate_def)
next
  show "sampler_ok multinomial \<and> sort_ok torch_sort \<and>
    (\<forall>ctx. \<exists>scores. model ctx = Inr scores \<and> length scores = V) \<and>
    2 \<le> V \<and> unk < V \<and> (\<forall>t\<in>set context. t < V) \<and> temperature \<noteq> 0 \<and> rp \<noteq> 0
      \<longrightarrow> (\<exists>out. generate model multinomial torch_sort g context len n_ctx unk temperature top_k top_p rp
                   = Inr out)"
    unfolding generate_def by (intro impI loop_total[of multinomial torch_sort model V]) auto
qed

theorem generate_growth_witness:
  "\<exists>out. generate (fixed_lm [0, 0]) pick_first sort_desc () [1] 2 1024 0 1 8 0 1 = Inr out \<and>
     int (length out) = int (length [1 :: nat]) + 2 \<and> take (length [1 :: nat]) out = [1]"
proof -
  have h: "sampler_ok pick_first \<and> sort_ok sort_desc \<and>
    (\<forall>ctx. \<exists>scores. fixed_lm [0, 0] ctx = Inr scores \<and> length scores = 2) \<and>
    (2 :: nat) \<le> 2 \<and> (0 :: nat) < 2 \<and> (\<forall>t\<in>set [1 :: nat]. t < 2) \<and> (1 :: real) \<noteq> 0 \<and> (1 :: real) \<noteq> 0"
    by (simp add: sampler_ok_pick_first sort_ok_sort_desc fixed_lm_def)
  from generate_growth[of "fixed_lm [0, 0]" pick_first sort_desc "()" "[1]" 2 1024 0 1 8 0 1 2] h
  show ?thesis by auto
qed

subsection \<open>Unknown suppression\<close>

lemma step_not_unk:
  assumes ok: "sampler_ok multinomial"
    and s: "step model multinomial torch_sort n_ctx unk temperature top_k top_p rp g generated = Inr (generated', g')"
  shows "\<exists>t. generated' = generated @ [t] \<and> t \<noteq> unk"
proof -
  from s obtain scaled suppressed filtered probs where
    sup: "suppress (map Fin scaled) unk = Inr suppressed"
    and fil: "top_k_top_p_filtering torch_sort suppressed top_k top_p NegInf = Inr filtered"
    and sm: "softmax filtered = Some probs"
    and g: "generated' = generated @ [fst (multinomial g probs)]"
    by (auto simp: step_def split: sum.splits option.splits prod.splits)
  from sup have u: "unk < length suppressed" "suppressed ! unk = NegInf"
    by (auto simp: suppress_def split: if_splits)
  from filtering_entries[OF fil] u have f: "length filtered = length suppressed" "filtered ! unk = NegInf"
    by auto
  then have ne: "filtered \<noteq> []" using u(1) by auto
  from softmax_positive[OF sm ne] f u(1) have p: "list_ex (\<lambda>q. 0 < q) probs" "probs ! unk = 0"
    by auto
  from ok p(1) have "0 < probs ! fst (multinomial g probs)"
    by (simp add: sampler_ok_def)
  with p(2) have "fst (multinomial g probs) \<noteq> unk" by auto
  with g show ?thesis by blast
qed

lemma loop_not_unk:
  assumes ok: "sampler_ok multinomial"
    and "generate_loop model multinomial torch_sort n_ctx unk temperature top_k top_p rp n g generated = Inr out"
  shows "unk \<notin> set (drop (length generated) out)"
  using assms(2)
proof (induction n arbitrary: g generated)
  case 0
  then show ?case by simp
next
  case (Suc n)
  from Suc.prems obtain generated' g' where
    s: "step model multinomial torch_sort n_ctx unk temperature top_k top_p rp g generated = Inr (generated', g')"
    and r: "generate_loop model multinomial torch_sort n_ctx unk temperature top_k top_p rp n g' generated' = Inr out"
    by (auto split: sum.splits)
  from step_not_unk[OF ok s] obtain t where t: "generated' = generated @ [t]" "t \<noteq> unk" by blast
  from loop_growth[OF r] have pre: "take (length generated') out = generated'" by simp
  have "drop (length generated) out = t # drop (length generated') out"
  proof -
    have "out = generated' @ drop (length generated') out"
      using pre by (metis append_take_drop_id)
    then have "out = generated @ t # drop (length generated') out" using t(1) by simp
    then show ?thesis by (metis append_eq_conv_conj)
  qed
  with Suc.IH[OF r] t(2) show ?case by simp
qed

text \<open>
  C5. With a sampler that only draws indices of positive probability, every run of
  \<^verbatim>\<open>generate\<close> that returns has no occurrence of the unknown id in the generated part of
  its result: line 55 sets its logit to \<open>-inf\<close>, the filter leaves \<open>-inf\<close> entries at
  \<open>-inf\<close>, and softmax gives them probability 0.
\<close>

theorem unknown_never_sampled:
  assumes "sampler_ok multinomial"
    and "generate model multinomial torch_sort g context len n_ctx unk temperature top_k top_p rp = Inr out"
  shows "unk \<notin> set (drop (length context) out)"
  using loop_not_unk[OF assms(1)] assms(2) by (simp add: generate_def)

theorem unknown_never_sampled_witness:
  "generate (fixed_lm [0, 0]) pick_first sort_desc () [0] 1 1024 0 1 8 0 1 = Inr [0, 1] \<and>
   0 \<notin> set (drop (length [0 :: nat]) [0, 1 :: nat])"
proof -
  have e: "generate (fixed_lm [0, 0]) pick_first sort_desc () [0] 1 1024 0 1 8 0 1 = Inr [0, 1]"
   by (simp add: generate_def step_def fixed_lm_def window_def penalise_def scale_def suppress_def
      top_k_top_p_filtering_def top_k_stage_def top_p_stage_def topk_def masked_fill_def
      softmax_def pick_first_def less_logit_def)
  from unknown_never_sampled[OF sampler_ok_pick_first e] e show ?thesis by simp
qed

end
